theory Spec2Isabelle
  imports Complex_Main
begin

unbundle bit_operations_syntax

section \<open>The biexponential translator of bi-exponential.ts\<close>

text \<open>
  The class \<^verbatim>\<open>BiexponentialTranslator\<close> computes with JavaScript numbers. They are
  modelled as real numbers: \<^verbatim>\<open>Math.log\<close> is \<open>ln\<close>, \<^verbatim>\<open>Math.log10\<close> is \<open>log 10\<close>,
  \<^verbatim>\<open>Math.exp\<close> is \<open>exp\<close>, \<^verbatim>\<open>Math.abs\<close> is the absolute value and \<^verbatim>\<open>Math.floor\<close> is
  \<open>floor\<close>. Rounding, overflow to an infinity and the propagation of NaN are not part
  of this model; the one NaN the source writes down, the initial \<^verbatim>\<open>last_f\<close> of the
  solver, is the value \<open>None\<close> of an option, so that a comparison with it is false as
  in the source. The logarithms of the source are taken of positive numbers whenever
  \<open>0 < linearMax\<close> and \<open>0 < b\<close>, and the statements below carry these conditions.

  The private fields \<^verbatim>\<open>_a\<close>, \<^verbatim>\<open>_b\<close>, ... of the class are the record fields \<open>m_a\<close>,
  \<open>m_b\<close>, ...; the public fields \<^verbatim>\<open>min\<close> and \<^verbatim>\<open>max\<close> are \<open>min_lin\<close> and \<open>max_lin\<close>. The
  fields \<^verbatim>\<open>_bins\<close>, \<^verbatim>\<open>_M\<close>, \<^verbatim>\<open>LN_10\<close> and \<^verbatim>\<open>_EPSILON\<close> are initialised where they are
  declared and never assigned again, so they are constants here.
\<close>

datatype ScaleType = Linear | Log | Biexponential | Band | UNKNOWN

text \<open>
  The two \<^verbatim>\<open>throw new Error(...)\<close> of the source: \<^verbatim>\<open>"exceeded maximum iterations in
  solve()"\<close> and \<^verbatim>\<open>"Illegal argument to Logicle scale: " + scaledValue\<close>.
\<close>

datatype error = ExceededMaximumIterations | IllegalArgument real

definition bins :: nat where
  "bins = 1024"

definition M :: real where
  "M = 4.5"

definition LN_10 :: real where
  "LN_10 = ln 10"

definition EPSILON :: real where
  "EPSILON = 1 / 10 ^ 12"

record Transform =
  m_a :: real
  m_b :: real
  m_c :: real
  m_d :: real
  m_f :: real
  m_x1 :: real
  m_W :: real
  m_xTaylor :: real
  m_taylor :: "real list"
  m_lookup :: "real list"
  m_rValue :: real
  m_resolution :: real
  m_T :: real
  scale :: ScaleType
  min_lin :: real
  max_lin :: real

subsection \<open>solve\<close>

text \<open>
  The variables that the loop of \<^verbatim>\<open>solve\<close> carries from one pass to the next, in the
  order \<open>(d_lo, d_hi, d, last_delta, f, last_f)\<close>.
\<close>

type_synonym solve_vars = "real \<times> real \<times> real \<times> real \<times> real \<times> real option"

datatype pass = Return real | Continue solve_vars

text \<open>
  The second half of the body of the \<^verbatim>\<open>for\<close> loop of \<^verbatim>\<open>solve\<close>, which both kinds of
  step share: the test of the precision reached, the new value of \<open>f\<close>, the test for a
  root or a stall, and the update of the bracket.
\<close>

definition pass_tail ::
    "real \<Rightarrow> real \<Rightarrow> real \<Rightarrow> real \<Rightarrow> real option \<Rightarrow> real \<Rightarrow> real \<Rightarrow> pass" where
  "pass_tail w f_b d_lo d_hi last_f delta d =
     (if \<bar>delta\<bar> < EPSILON then Return d
      else let last_delta = delta;
               f = 2 * ln d + w * d + f_b
           in if f = 0 \<or> Some f = last_f then Return d
              else let last_f = Some f
                   in if f < 0 then Continue (d, d_hi, d, last_delta, f, last_f)
                      else Continue (d_lo, d, d, last_delta, f, last_f))"

text \<open>One pass through the body of the \<^verbatim>\<open>for\<close> loop of \<^verbatim>\<open>solve\<close>.\<close>

definition solve_pass :: "real \<Rightarrow> real \<Rightarrow> solve_vars \<Rightarrow> pass" where
  "solve_pass w f_b vars =
     (case vars of (d_lo, d_hi, d, last_delta, f, last_f) \<Rightarrow>
        let df = 2 / d + w
        in if ((d - d_hi) * df - f) * ((d - d_lo) * df - f) \<ge> 0
              \<or> \<bar>1.9 * f\<bar> > \<bar>last_delta * df\<bar>
           then let delta = (d_hi - d_lo) / 2;
                    d' = d_lo + delta
                in if d' = d_lo then Return d'
                   else pass_tail w f_b d_lo d_hi last_f delta d'
           else let delta = f / df;
                    t = d;
                    d' = d - delta
                in if d' = t then Return d'
                   else pass_tail w f_b d_lo d_hi last_f delta d')"

text \<open>
  The loop \<^verbatim>\<open>for (let i = 1; i < 20; ++i)\<close> with its counter, and the \<^verbatim>\<open>throw\<close> that
  follows it.
\<close>

function solve_loop :: "nat \<Rightarrow> real \<Rightarrow> real \<Rightarrow> solve_vars \<Rightarrow> error + real" where
  "solve_loop i w f_b vars =
     (if i < 20
      then (case solve_pass w f_b vars of
              Return r \<Rightarrow> Inr r
            | Continue vars' \<Rightarrow> solve_loop (i + 1) w f_b vars')
      else Inl ExceededMaximumIterations)"
  by pat_completeness auto
termination
  by (relation "measure (\<lambda>(i, w, f_b, vars). 20 - i)") auto

declare solve_loop.simps [simp del]

definition solve :: "real \<Rightarrow> real \<Rightarrow> error + real" where
  "solve b w =
     (if w = 0 then Inr b
      else let d_lo = 0;
               d_hi = b;
               d = (d_lo + d_hi) / 2;
               last_delta = d_hi - d_lo;
               f_b = - 2 * ln b + w * b;
               f = 2 * ln d + w * d + f_b
           in solve_loop 1 w f_b (d_lo, d_hi, d, last_delta, f, None))"

subsection \<open>seriesBiexponential and inverse\<close>

definition seriesBiexponential :: "Transform \<Rightarrow> real \<Rightarrow> real" where
  "seriesBiexponential t scale_value =
     (let x = scale_value - m_x1 t;
          n = length (m_taylor t);
          sum0 = m_taylor t ! (n - 1) * x;
          sum1 = foldl (\<lambda>sum i. (sum + m_taylor t ! i) * x) sum0 (rev [2..<n - 1])
      in (sum1 * x + m_taylor t ! 0) * x)"

definition inverse_fn :: "Transform \<Rightarrow> real \<Rightarrow> real" where
  "inverse_fn t scale_value =
     (let negative = (scale_value < m_x1 t);
          s = (if negative then 2 * m_x1 t - scale_value else scale_value);
          inv = (if s < m_xTaylor t then seriesBiexponential t s
                 else (m_a t * exp (m_b t * s) + m_f t) - m_c t / exp (m_d t * s))
      in if negative then - inv else inv)"

subsection \<open>The constructor\<close>

text \<open>
  The loop that fills \<^verbatim>\<open>_taylor\<close>: \<open>n\<close> entries are still to be written, the next one
  at index \<open>i\<close>.
\<close>

fun taylor_loop :: "nat \<Rightarrow> nat \<Rightarrow> real \<Rightarrow> real \<Rightarrow> real \<Rightarrow> real \<Rightarrow> real list" where
  "taylor_loop 0 i b d posCoef negCoef = []"
| "taylor_loop (Suc n) i b d posCoef negCoef =
     (let posCoef' = posCoef * (b / real (i + 1));
          negCoef' = negCoef * (- d / real (i + 1))
      in (posCoef' + negCoef') # taylor_loop n (i + 1) b d posCoef' negCoef')"

text \<open>
  The constructor after the call of \<^verbatim>\<open>solve\<close> has returned \<open>d\<close>, in two parts.
  \<open>coefficients\<close> is the object when the Taylor table is complete (lines 58 to 78 of
  the source); the fields assigned later still hold what they held before: the lookup
  table is empty, \<open>min\<close> and \<open>max\<close> are \<open>0\<close>.
\<close>

definition coefficients :: "real \<Rightarrow> real \<Rightarrow> real \<Rightarrow> real \<Rightarrow> real \<Rightarrow> Transform" where
  "coefficients rValue linearMax W b d =
     (let w = W / M;
          x2 = 0;
          x1 = x2 + w;
          x0 = x2 + 2 * w;
          c_a = exp (x0 * (b + d));
          mf_a = exp (b * x1) - c_a / exp (d * x1);
          a = linearMax / ((exp b - mf_a) - c_a / exp d);
          c = c_a * a;
          f = - mf_a * a;
          xTaylor = x1 + w / 4;
          posCoef = a * exp (b * x1);
          negCoef = - c / exp (d * x1);
          taylor = (taylor_loop 16 0 b d posCoef negCoef)[1 := 0]
      in \<lparr> m_a = a, m_b = b, m_c = c, m_d = d, m_f = f, m_x1 = x1, m_W = W,
           m_xTaylor = xTaylor, m_taylor = taylor, m_lookup = [],
           m_rValue = (if rValue < 0 then \<bar>rValue\<bar> else 0.001),
           m_resolution = 0, m_T = linearMax, scale = UNKNOWN,
           min_lin = 0, max_lin = 0 \<rparr>)"

text \<open>
  The rest of the constructor (lines 80 to 93): \<^verbatim>\<open>inverse\<close> is called on the object
  under construction and reads the coefficients, \<open>x1\<close>, \<open>xTaylor\<close> and the Taylor table.
\<close>

definition assemble :: "real \<Rightarrow> real \<Rightarrow> real \<Rightarrow> real \<Rightarrow> real \<Rightarrow> Transform" where
  "assemble rValue linearMax W b d =
     (let this = coefficients rValue linearMax W b d;
          lookup = map (\<lambda>i. inverse_fn this ((real i * 1.0) / real bins)) [0..<bins + 1];
          this = this \<lparr> m_lookup := lookup, m_resolution := M / real bins,
                       scale := Biexponential \<rparr>
      in if rValue < 0 then this \<lparr> max_lin := linearMax, min_lin := lookup ! 0 \<rparr> else this)"

definition new_BiexponentialTranslator :: "real \<Rightarrow> real \<Rightarrow> error + Transform" where
  "new_BiexponentialTranslator rValue linearMax =
     (let r = (if rValue < 0 then \<bar>rValue\<bar> else 0.001);
          T = linearMax;
          W0 = (M - log 10 (T / \<bar>r\<bar>)) / 2;
          W = (if W0 < 0 then 0.0 else W0);
          w = W / M;
          b = M * LN_10
      in case solve b w of
           Inl e \<Rightarrow> Inl e
         | Inr d \<Rightarrow> Inr (assemble rValue linearMax W b d))"

subsection \<open>translateFromLinear and translateToLinear\<close>

text \<open>
  The scan of \<^verbatim>\<open>translateFromLinear\<close>: the first \<open>i\<close> below \<open>length lookup - 1\<close> with
  \<open>lookup[i] \<le> linearValue < lookup[i + 1]\<close>, and \<open>-1\<close> when there is none.
\<close>

definition scan_index :: "real list \<Rightarrow> real \<Rightarrow> int" where
  "scan_index lookup linearValue =
     (case find (\<lambda>i. linearValue \<ge> lookup ! i \<and> linearValue < lookup ! (i + 1))
             [0..<length lookup - 1] of
        None \<Rightarrow> - 1
      | Some i \<Rightarrow> int i)"

definition translateFromLinear :: "Transform \<Rightarrow> real \<Rightarrow> real" where
  "translateFromLinear t linearValue =
     (if linearValue \<le> m_lookup t ! 0 then 0
      else if linearValue > m_lookup t ! (bins - 1) then M
      else let index = scan_index (m_lookup t) linearValue
           in if index = 0 then 0
              else let index = (if index < 0 then NOT index else index)
                   in if index \<ge> int bins then M
                      else if index > 0
                           then ((linearValue - m_lookup t ! nat (index - 1))
                                   / (m_lookup t ! nat index - m_lookup t ! nat (index - 1))
                                 + real_of_int index - 1) * m_resolution t
                           else m_lookup t ! 0)"

definition translateToLinear :: "Transform \<Rightarrow> real \<Rightarrow> error + real" where
  "translateToLinear t scaledValue0 =
     (let scaledValue = (if scaledValue0 < 0 then 0
                         else if scaledValue0 > 4.5 then 4.5 else scaledValue0);
          x = scaledValue / m_resolution t;
          index = \<lfloor>x\<rfloor>
      in if index < 0 \<or> index > int bins then Inl (IllegalArgument scaledValue)
         else let delta = x - real_of_int index
              in Inr (if index < int bins
                      then (1 - delta) * m_lookup t ! nat index
                           + delta * m_lookup t ! nat (index + 1)
                      else m_lookup t ! bins))"

subsection \<open>The cache of constructBiExponentialTranslator\<close>

text \<open>
  The module-level \<^verbatim>\<open>Map\<close> holds references to objects. A reference is the position of
  the object in the list of all objects allocated so far. The key of the source is the
  string \<^verbatim>\<open>`${rValue}_${linearMax}`\<close>; the decimal rendering of a number determines the
  number, and no rendering contains an underscore, so the key is the pair of numbers.
\<close>

record cache =
  objects :: "Transform list"
  translators :: "real \<times> real \<rightharpoonup> nat"

definition empty_cache :: cache where
  "empty_cache = \<lparr> objects = [], translators = Map.empty \<rparr>"

definition constructBiExponentialTranslator ::
    "real \<Rightarrow> real \<Rightarrow> cache \<Rightarrow> error + (nat \<times> cache)" where
  "constructBiExponentialTranslator rValue linearMax st =
     (let key = (rValue, linearMax)
      in case translators st key of
           Some r \<Rightarrow> Inr (r, st)
         | None \<Rightarrow>
             (case new_BiexponentialTranslator rValue linearMax of
                Inl e \<Rightarrow> Inl e
              | Inr t \<Rightarrow>
                  let r = length (objects st);
                      st' = st \<lparr> objects := objects st @ [t],
                                 translators := (translators st)(key \<mapsto> r) \<rparr>
                  in Inr (the (translators st' key), st')))"

section \<open>Notions used in the statements\<close>

text \<open>
  \<open>passes n\<close> runs the body of the loop of \<^verbatim>\<open>solve\<close> up to \<open>n\<close> times and stops at the
  first pass that returns.
\<close>

fun passes :: "nat \<Rightarrow> real \<Rightarrow> real \<Rightarrow> solve_vars \<Rightarrow> pass" where
  "passes 0 w f_b vars = Continue vars"
| "passes (Suc n) w f_b vars =
     (case solve_pass w f_b vars of
        Return r \<Rightarrow> Return r
      | Continue vars' \<Rightarrow> passes n w f_b vars')"

text \<open>
  The test at the head of a pass: a Newton step would leave the bracket, or the residual
  is not shrinking fast enough, so the pass bisects.
\<close>

definition takes_bisection :: "real \<Rightarrow> solve_vars \<Rightarrow> bool" where
  "takes_bisection w vars =
     (case vars of (d_lo, d_hi, d, last_delta, f, last_f) \<Rightarrow>
        ((d - d_hi) * (2 / d + w) - f) * ((d - d_lo) * (2 / d + w) - f) \<ge> 0
        \<or> \<bar>1.9 * f\<bar> > \<bar>last_delta * (2 / d + w)\<bar>)"

text \<open>
  The invariant of the loop: the bracket lies within \<open>[0, b]\<close>, is not empty, and holds
  the current estimate, which is positive.
\<close>

definition bracket :: "real \<Rightarrow> solve_vars \<Rightarrow> bool" where
  "bracket b vars =
     (case vars of (d_lo, d_hi, d, last_delta, f, last_f) \<Rightarrow>
        0 \<le> d_lo \<and> d_lo < d_hi \<and> d_hi \<le> b \<and> d_lo \<le> d \<and> d \<le> d_hi \<and> 0 < d)"

text \<open>
  The function whose root \<^verbatim>\<open>solve\<close> looks for, \<open>f(x) = 2 ln x + w x + f_b\<close> with
  \<open>f_b = -2 ln b + w b\<close>, as the loop recomputes it.
\<close>

definition residual :: "real \<Rightarrow> real \<Rightarrow> real \<Rightarrow> real" where
  "residual b w x = 2 * ln x + w * x + (- 2 * ln b + w * b)"

text \<open>
  The variables of the loop after \<open>k\<close> passes that all bisected with a positive residual:
  the bracket is \<open>[0, b / 2^k]\<close> and the estimate is its upper end.
\<close>

definition halved :: "real \<Rightarrow> real \<Rightarrow> nat \<Rightarrow> solve_vars" where
  "halved b w k =
     (0, b / 2 ^ k, b / 2 ^ k, b / 2 ^ k, residual b w (b / 2 ^ k),
      Some (residual b w (b / 2 ^ k)))"

text \<open>
  The variables of \<^verbatim>\<open>solve\<close> when the loop is entered.
\<close>

definition start_vars :: "real \<Rightarrow> real \<Rightarrow> solve_vars" where
  "start_vars b w =
     (0, b, (0 + b) / 2, b - 0, 2 * ln ((0 + b) / 2) + w * ((0 + b) / 2) + (- 2 * ln b + w * b),
      None)"

text \<open>
  A state from which every pass is a Newton step from the left of the root: the estimate
  is the lower end of the bracket, its residual lies in \<open>[-\<phi>, 0)\<close>, and the last step was
  long enough for the test at the head of the pass to choose Newton.
\<close>

definition closing :: "real \<Rightarrow> real \<Rightarrow> real \<Rightarrow> solve_vars \<Rightarrow> bool" where
  "closing b w \<phi> vars =
     (case vars of (d_lo, d_hi, d, last_delta, f, last_f) \<Rightarrow>
        d_lo = d \<and> 0 < d \<and> d < d_hi \<and> d_hi \<le> b \<and> f = residual b w d \<and> - \<phi> \<le> f \<and> f < 0
        \<and> 0 < residual b w d_hi \<and> 1.9 * \<bar>f\<bar> \<le> \<bar>last_delta * (2 / d + w)\<bar>)"

text \<open>
  The bound on the residual after \<open>n\<close> Newton steps: each step takes \<open>\<phi>\<close> to \<open>\<phi>\<^sup>2 / 2\<close>.
\<close>

fun squared :: "nat \<Rightarrow> real \<Rightarrow> real" where
  "squared 0 \<phi> = \<phi>"
| "squared (Suc n) \<phi> = squared n (\<phi>\<^sup>2 / 2)"

text \<open>
  The closed form of \<^verbatim>\<open>inverse\<close>, \<open>a exp(b s) + f - c / exp(d s)\<close>.
\<close>

definition closed_form :: "Transform \<Rightarrow> real \<Rightarrow> real" where
  "closed_form t s = (m_a t * exp (m_b t * s) + m_f t) - m_c t / exp (m_d t * s)"

text \<open>
  The value of \<open>W\<close> that the constructor computes from its two arguments, clamped at \<open>0\<close>.
\<close>

definition decade_width :: "real \<Rightarrow> real \<Rightarrow> real" where
  "decade_width rValue linearMax =
     (let r = (if rValue < 0 then \<bar>rValue\<bar> else 0.001);
          W0 = (M - log 10 (linearMax / \<bar>r\<bar>)) / 2
      in if W0 < 0 then 0.0 else W0)"

text \<open>
  The closed form without its scale \<open>a\<close> and offset \<open>f\<close>:
  \<open>exp(b s) - c_a / exp(d s)\<close> with \<open>c_a = exp(2 w (b + d))\<close>.
\<close>

definition branch :: "real \<Rightarrow> real \<Rightarrow> real \<Rightarrow> real \<Rightarrow> real" where
  "branch b d w s = exp (b * s) - exp (2 * w * (b + d)) / exp (d * s)"

text \<open>
  The invariant of the cache: every stored reference points to an allocated object, and
  no two keys share a reference.
\<close>

definition cache_ok :: "cache \<Rightarrow> bool" where
  "cache_ok st =
     ((\<forall>k r. translators st k = Some r \<longrightarrow> r < length (objects st))
      \<and> (\<forall>k k' r. translators st k = Some r \<longrightarrow> translators st k' = Some r \<longrightarrow> k = k'))"

text \<open>
  The conditions under which a pass of the loop returns, in the words of the
  specification: the step produces no change (after a bisection the new estimate equals
  \<open>d_lo\<close>, after a Newton step it equals the old estimate), or \<open>|delta| < EPSILON\<close>, or the
  new \<open>f\<close> is zero or equal to the previous \<open>f\<close>; \<open>r\<close> is the new estimate.
\<close>

definition early_exit :: "real \<Rightarrow> real \<Rightarrow> solve_vars \<Rightarrow> real \<Rightarrow> bool" where
  "early_exit w f_b vars r =
     (case vars of (d_lo, d_hi, d, last_delta, f, last_f) \<Rightarrow>
        let bisection = takes_bisection w vars;
            delta = (if bisection then (d_hi - d_lo) / 2 else f / (2 / d + w));
            d' = (if bisection then d_lo + delta else d - delta);
            f' = 2 * ln d' + w * d' + f_b
        in r = d' \<and> ((if bisection then d' = d_lo else d' = d)
                      \<or> \<bar>delta\<bar> < EPSILON \<or> f' = 0 \<or> Some f' = last_f))"

text \<open>
  The invariant of the loop of \<^verbatim>\<open>solve\<close> used to show that a returned estimate never lies
  above the root: after \<open>n\<close> passes the bracket \<open>[d_lo, d_hi]\<close> lies in \<open>[0, b]\<close>, \<open>f\<close> is the
  residual at \<open>d\<close>, the residual at \<open>d_hi\<close> is positive, \<open>last_f\<close> is unset or the residual at
  an end of the bracket, and either the bracket is still at least \<open>K / 2^n\<close> wide or the
  estimate is the lower end of the bracket, with a negative residual, reached by a step
  that lets the next pass take a Newton step or is at least a quarter of the estimate.
\<close>

definition settled :: "real \<Rightarrow> real \<Rightarrow> real \<Rightarrow> nat \<Rightarrow> solve_vars \<Rightarrow> bool" where
  "settled b w K n vars =
     (case vars of (d_lo, d_hi, d, last_delta, f, last_f) \<Rightarrow>
        0 \<le> d_lo \<and> d_lo < d_hi \<and> d_hi \<le> b \<and> d_lo \<le> d \<and> d \<le> d_hi \<and> 0 < d
        \<and> f = residual b w d \<and> 0 < residual b w d_hi
        \<and> (last_f = None \<or> (last_f = Some f \<and> (d = d_lo \<or> d = d_hi)))
        \<and> ((d = d_lo \<and> f < 0
              \<and> (1.9 * \<bar>f\<bar> \<le> \<bar>last_delta * (2 / d + w)\<bar> \<or> d / 4 \<le> \<bar>last_delta\<bar>))
            \<or> K / 2 ^ n \<le> d_hi - d_lo))"

text \<open>
  The terms of degree \<open>3\<close> to \<open>16\<close> of the exponential series, the part of it that the
  Taylor table of the constructor keeps besides the linear term.
\<close>

definition exp_tail :: "real \<Rightarrow> real" where
  "exp_tail u = (\<Sum>m = 3..<17. u ^ m / fact m)"

text \<open>
  What \<^verbatim>\<open>inverse\<close> computes before the sign is restored: the Taylor branch below
  \<open>xTaylor\<close>, the closed form from \<open>xTaylor\<close> on.
\<close>

definition positive_side :: "Transform \<Rightarrow> real \<Rightarrow> real" where
  "positive_side t s = (if s < m_xTaylor t then seriesBiexponential t s else closed_form t s)"

text \<open>
  The round trip of a linear value: \<^verbatim>\<open>translateToLinear(translateFromLinear(x))\<close>.
\<close>

definition round_trip :: "Transform \<Rightarrow> real \<Rightarrow> error + real" where
  "round_trip t x = translateToLinear t (translateFromLinear t x)"


section \<open>The loop of solve\<close>

lemma solve_pass_bisection:
  "takes_bisection w (d_lo, d_hi, d, last_delta, f, last_f) \<Longrightarrow>
   solve_pass w f_b (d_lo, d_hi, d, last_delta, f, last_f) =
     (if d_lo + (d_hi - d_lo) / 2 = d_lo then Return (d_lo + (d_hi - d_lo) / 2)
      else pass_tail w f_b d_lo d_hi last_f ((d_hi - d_lo) / 2) (d_lo + (d_hi - d_lo) / 2))"
  unfolding takes_bisection_def solve_pass_def Let_def prod.case by (rule if_P)

lemma solve_pass_newton:
  "\<not> takes_bisection w (d_lo, d_hi, d, last_delta, f, last_f) \<Longrightarrow>
   solve_pass w f_b (d_lo, d_hi, d, last_delta, f, last_f) =
     (if d - f / (2 / d + w) = d then Return (d - f / (2 / d + w))
      else pass_tail w f_b d_lo d_hi last_f (f / (2 / d + w)) (d - f / (2 / d + w)))"
  unfolding takes_bisection_def solve_pass_def Let_def prod.case by (rule if_not_P)

lemma solve_loop_passes:
  "i \<le> 20 \<Longrightarrow> solve_loop i w f_b vars =
     (case passes (20 - i) w f_b vars of
        Return r \<Rightarrow> Inr r
      | Continue vars' \<Rightarrow> Inl ExceededMaximumIterations)"
proof (induction "20 - i" arbitrary: i vars)
  case 0
  then have "i = 20" by simp
  then show ?case by (simp add: solve_loop.simps)
next
  case (Suc n)
  then have i: "i < 20" and n: "n = 20 - (i + 1)" and le: "i + 1 \<le> 20" by simp_all
  have s: "20 - i = Suc (20 - (i + 1))" using i by simp
  show ?case
  proof (cases "solve_pass w f_b vars")
    case (Return r)
    then show ?thesis using i by (simp add: solve_loop.simps [of i] s)
  next
    case (Continue vars')
    then show ?thesis
      using i Suc.hyps(1) [OF n le, of vars'] by (simp add: solve_loop.simps [of i] s)
  qed
qed

lemma newton_inside:
  fixes d d_lo d_hi df f :: real
  assumes df: "0 < df" and lt: "d_lo < d_hi"
    and n: "\<not> ((d - d_hi) * df - f) * ((d - d_lo) * df - f) \<ge> 0"
  shows "d_lo < d - f / df \<and> d - f / df < d_hi"
proof -
  have e1: "(d - d_hi) * df - f = df * ((d - f / df) - d_hi)"
    using df by (simp add: field_simps)
  have e2: "(d - d_lo) * df - f = df * ((d - f / df) - d_lo)"
    using df by (simp add: field_simps)
  define y where "y = d - f / df"
  have "df * (y - d_hi) * (df * (y - d_lo)) < 0"
    using n unfolding e1 e2 y_def by simp
  then have "(df * df) * ((y - d_hi) * (y - d_lo)) < 0"
    by (simp add: mult_ac)
  moreover have "0 < df * df" using df by simp
  ultimately have p: "(y - d_hi) * (y - d_lo) < 0"
    by (simp add: zero_less_mult_iff mult_less_0_iff)
  then have "d_lo < y \<and> y < d_hi"
    using lt by (auto simp: mult_less_0_iff)
  then show ?thesis by (simp add: y_def)
qed

lemma pass_tail_bracket:
  assumes "0 \<le> d_lo" "d_lo < d'" "d' < d_hi" "d_hi \<le> b"
  shows "case pass_tail w f_b d_lo d_hi last_f delta d' of
           Return r \<Rightarrow> 0 < r \<and> r < b
         | Continue vars' \<Rightarrow> bracket b vars'"
  using assms by (simp add: pass_tail_def Let_def bracket_def)

lemma solve_pass_bracket:
  assumes "bracket b vars" and "0 \<le> w"
  shows "case solve_pass w f_b vars of
           Return r \<Rightarrow> 0 < r \<and> r < b
         | Continue vars' \<Rightarrow> bracket b vars'"
proof -
  obtain d_lo d_hi d last_delta f last_f
    where v: "vars = (d_lo, d_hi, d, last_delta, f, last_f)"
    by (cases vars) auto
  from assms v have b: "0 \<le> d_lo" "d_lo < d_hi" "d_hi \<le> b" "d_lo \<le> d" "d \<le> d_hi" "0 < d"
    by (simp_all add: bracket_def)
  have df: "0 < 2 / d + w" using b assms(2) by (simp add: add_pos_nonneg)
  show ?thesis
  proof (cases "takes_bisection w vars")
    case True
    have in': "d_lo < d_lo + (d_hi - d_lo) / 2" "d_lo + (d_hi - d_lo) / 2 < d_hi"
      using b by (simp_all add: field_simps)
    have ne: "d_lo + (d_hi - d_lo) / 2 \<noteq> d_lo" using in' by simp
    show ?thesis
      using True pass_tail_bracket [OF b(1) in' b(3), of w f_b last_f "(d_hi - d_lo) / 2"] ne
      unfolding v by (simp only: solve_pass_bisection if_False)
  next
    case False
    then have "\<not> ((d - d_hi) * (2 / d + w) - f) * ((d - d_lo) * (2 / d + w) - f) \<ge> 0"
      by (simp add: takes_bisection_def v)
    from newton_inside [OF df b(2) this]
    have in': "d_lo < d - f / (2 / d + w)" "d - f / (2 / d + w) < d_hi" by simp_all
    have pos: "0 < d - f / (2 / d + w)" "d - f / (2 / d + w) < b" using in' b by simp_all
    have eq: "solve_pass w f_b vars =
        (if d - f / (2 / d + w) = d then Return (d - f / (2 / d + w))
         else pass_tail w f_b d_lo d_hi last_f (f / (2 / d + w)) (d - f / (2 / d + w)))"
      using False unfolding v by (rule solve_pass_newton)
    show ?thesis
    proof (cases "d - f / (2 / d + w) = d")
      case True
      then show ?thesis using pos eq by simp
    next
      case ne: False
      then show ?thesis
        using pass_tail_bracket [OF b(1) in' b(3), of w f_b last_f "f / (2 / d + w)"] eq
        by simp
    qed
  qed
qed

lemma passes_bracket:
  assumes "bracket b vars" and "0 \<le> w"
  shows "case passes n w f_b vars of
           Return r \<Rightarrow> 0 < r \<and> r < b
         | Continue vars' \<Rightarrow> bracket b vars'"
  using assms(1)
proof (induction n arbitrary: vars)
  case 0
  then show ?case by simp
next
  case (Suc n)
  from solve_pass_bracket [OF Suc.prems assms(2), of f_b] Suc.IH show ?case
    by (cases "solve_pass w f_b vars") simp_all
qed

lemma solve_result_range:
  assumes "0 < b" and "0 < w" and "solve b w = Inr r"
  shows "0 < r \<and> r < b"
proof -
  have br: "bracket b (0, b, (0 + b) / 2, b - 0, 2 * ln ((0 + b) / 2) + w * ((0 + b) / 2) + (- 2 * ln b + w * b), None)"
    using assms(1) by (simp add: bracket_def)
  from assms have w: "0 \<le> w" "w \<noteq> 0" by simp_all
  from passes_bracket [OF br w(1), of 19 "- 2 * ln b + w * b"] assms(3) w(2)
  show ?thesis
    by (simp add: solve_def Let_def solve_loop_passes split: pass.splits)
qed

lemma solve_passes:
  "w \<noteq> 0 \<Longrightarrow> solve b w =
     (case passes 19 w (- 2 * ln b + w * b) (start_vars b w) of
        Return r \<Rightarrow> Inr r
      | Continue vars' \<Rightarrow> Inl ExceededMaximumIterations)"
  by (simp add: solve_def Let_def solve_loop_passes start_vars_def)

lemma residual_halved:
  assumes "0 < b"
  shows "residual b w (b / 2 ^ k) = w * b * (1 + 1 / 2 ^ k) - 2 * real k * ln 2"
proof -
  have "ln (b / 2 ^ k) = ln b - real k * ln 2"
    using assms by (simp add: ln_divide_pos ln_realpow)
  then show ?thesis by (simp add: residual_def algebra_simps)
qed

lemma residual_halved_less:
  assumes "0 < b" and "0 \<le> w"
  shows "residual b w (b / 2 ^ Suc k) < residual b w (b / 2 ^ k)"
proof -
  have l: "0 < ln (2::real)" by simp
  have e: "2 * real (Suc k) * ln 2 = 2 * real k * ln 2 + 2 * ln (2::real)"
    by (simp add: algebra_simps)
  have "(1::real) / 2 ^ Suc k \<le> 1 / 2 ^ k" by (simp add: field_simps)
  moreover have "0 \<le> w * b" using assms by simp
  ultimately have "w * b * (1 + 1 / 2 ^ Suc k) \<le> w * b * (1 + 1 / 2 ^ k)"
    by (intro mult_left_mono) simp_all
  with l show ?thesis
    unfolding residual_halved [OF assms(1), of w k] residual_halved [OF assms(1), of w "Suc k"] e
    by linarith
qed

lemma pass_tail_pos:
  assumes "\<not> \<bar>delta\<bar> < EPSILON" and "f' = 2 * ln d' + w * d' + f_b" and "0 < f'"
    and "Some f' \<noteq> last_f"
  shows "pass_tail w f_b d_lo d_hi last_f delta d' = Continue (d_lo, d', d', delta, f', Some f')"
  using assms by (simp add: pass_tail_def Let_def)

lemma pass_tail_cases:
  assumes "f' = 2 * ln d' + w * d' + f_b"
  shows "pass_tail w f_b d_lo d_hi last_f delta d' = Return d'
         \<or> (\<not> \<bar>delta\<bar> < EPSILON \<and> f' < 0
             \<and> pass_tail w f_b d_lo d_hi last_f delta d' = Continue (d', d_hi, d', delta, f', Some f'))
         \<or> (\<not> \<bar>delta\<bar> < EPSILON \<and> 0 < f'
             \<and> pass_tail w f_b d_lo d_hi last_f delta d' = Continue (d_lo, d', d', delta, f', Some f'))"
  using assms by (auto simp: pass_tail_def Let_def)

lemma first_pass:
  assumes b: "0 < b" and w: "0 < w"
    and slow: "4 + w * b < 1.9 * residual b w (b / 2 ^ 1)"
    and eps: "EPSILON \<le> b / 2 ^ 1"
  shows "solve_pass w (- 2 * ln b + w * b) (start_vars b w) = Continue (halved b w 1)"
proof -
  define g where "g = residual b w (b / 2 ^ 1)"
  have g: "4 + w * b < 1.9 * g" using slow by (simp add: g_def)
  have gpos: "0 < g"
  proof -
    have "0 < 4 + w * b" using b w by (simp add: add_pos_pos)
    then show ?thesis using g by simp
  qed
  have sv: "start_vars b w = (0, b, b / 2 ^ 1, b, g, None)"
    by (simp add: start_vars_def g_def residual_def)
  have bis: "takes_bisection w (0, b, b / 2 ^ 1, b, g, None)"
  proof -
    have "b * (2 / (b / 2 ^ 1) + w) = 4 + w * b" using b by (simp add: field_simps)
    then have "\<bar>b * (2 / (b / 2 ^ 1) + w)\<bar> = 4 + w * b"
      using b w by (simp add: add_pos_pos)
    moreover have "\<bar>1.9 * g\<bar> = 1.9 * g" using gpos by simp
    ultimately have "\<bar>1.9 * g\<bar> > \<bar>b * (2 / (b / 2 ^ 1) + w)\<bar>" using g by simp
    then show ?thesis unfolding takes_bisection_def prod.case by (rule disjI2)
  qed
  have e: "0 + (b - 0) / 2 = b / 2 ^ 1" "(b - 0) / 2 = b / 2 ^ 1" by simp_all
  have ne: "b / 2 ^ 1 \<noteq> 0" using b by simp
  have noeps: "\<not> \<bar>b / 2 ^ 1\<bar> < EPSILON"
    using eps b by (simp add: abs_of_pos)
  have tail: "pass_tail w (- 2 * ln b + w * b) 0 b None (b / 2 ^ 1) (b / 2 ^ 1)
              = Continue (halved b w 1)"
    unfolding halved_def g_def [symmetric]
    by (rule pass_tail_pos [OF noeps _ gpos]) (simp_all add: residual_def g_def)
  have "solve_pass w (- 2 * ln b + w * b) (start_vars b w)
        = (if 0 + (b - 0) / 2 = 0 then Return (0 + (b - 0) / 2)
           else pass_tail w (- 2 * ln b + w * b) 0 b None ((b - 0) / 2) (0 + (b - 0) / 2))"
    unfolding sv by (rule solve_pass_bisection [OF bis])
  also have "\<dots> = pass_tail w (- 2 * ln b + w * b) 0 b None (b / 2 ^ 1) (b / 2 ^ 1)"
    unfolding e(2) add_0 using ne by (simp only: if_False)
  finally show ?thesis by (simp only: tail)
qed

lemma halved_pass:
  assumes b: "0 < b" and w: "0 < w"
    and slow: "2 + w * (b / 2 ^ k) < 1.9 * residual b w (b / 2 ^ k)"
    and eps: "EPSILON \<le> b / 2 ^ Suc k"
    and pos: "0 < residual b w (b / 2 ^ Suc k)"
  shows "solve_pass w (- 2 * ln b + w * b) (halved b w k) = Continue (halved b w (Suc k))"
proof -
  define d where "d = b / 2 ^ k"
  define g where "g = residual b w d"
  have d: "0 < d" using b by (simp add: d_def)
  have g: "2 + w * d < 1.9 * g" using slow by (simp add: g_def d_def)
  have gpos: "0 < g"
  proof -
    have "0 < 2 + w * d" using d w by (simp add: add_pos_pos)
    then show ?thesis using g by simp
  qed
  have bis: "takes_bisection w (0, d, d, d, g, Some g)"
  proof -
    have "d * (2 / d + w) = 2 + w * d" using d by (simp add: field_simps)
    then have "\<bar>d * (2 / d + w)\<bar> = 2 + w * d" using d w by (simp add: add_pos_pos)
    moreover have "\<bar>1.9 * g\<bar> = 1.9 * g" using gpos by simp
    ultimately have "\<bar>1.9 * g\<bar> > \<bar>d * (2 / d + w)\<bar>" using g by simp
    then show ?thesis unfolding takes_bisection_def prod.case by (rule disjI2)
  qed
  have e: "0 + (d - 0) / 2 = b / 2 ^ Suc k" "(d - 0) / 2 = b / 2 ^ Suc k"
    by (simp_all add: d_def)
  have ne: "b / 2 ^ Suc k \<noteq> 0" using b by simp
  have less: "Some (residual b w (b / 2 ^ Suc k)) \<noteq> Some g"
    using residual_halved_less [OF b, of w k] w by (simp add: g_def d_def)
  have noeps: "\<not> \<bar>b / 2 ^ Suc k\<bar> < EPSILON"
    using eps b by (simp add: abs_of_pos)
  have tail: "pass_tail w (- 2 * ln b + w * b) 0 d (Some g) (b / 2 ^ Suc k) (b / 2 ^ Suc k)
              = Continue (halved b w (Suc k))"
    unfolding halved_def
    by (rule pass_tail_pos [OF noeps _ pos less]) (simp add: residual_def)
  have "solve_pass w (- 2 * ln b + w * b) (halved b w k)
        = solve_pass w (- 2 * ln b + w * b) (0, d, d, d, g, Some g)"
    by (simp only: halved_def d_def g_def)
  also have "\<dots> = (if 0 + (d - 0) / 2 = 0 then Return (0 + (d - 0) / 2)
           else pass_tail w (- 2 * ln b + w * b) 0 d (Some g) ((d - 0) / 2) (0 + (d - 0) / 2))"
    by (rule solve_pass_bisection [OF bis])
  also have "\<dots> = pass_tail w (- 2 * ln b + w * b) 0 d (Some g) (b / 2 ^ Suc k) (b / 2 ^ Suc k)"
    unfolding e(2) add_0 using ne by (simp only: if_False)
  finally show ?thesis by (simp only: tail)
qed

text \<open>Running \<open>m + n\<close> passes is running \<open>m\<close> passes and then \<open>n\<close> more.\<close>

lemma passes_add:
  "passes (m + n) w f_b vars =
     (case passes m w f_b vars of
        Return r \<Rightarrow> Return r
      | Continue vars' \<Rightarrow> passes n w f_b vars')"
  by (induction m arbitrary: vars) (simp_all split: pass.splits)

lemma halved_passes:
  assumes b: "0 < b" and w: "0 < w"
    and slow: "\<And>j. k \<le> j \<Longrightarrow> j < k + n \<Longrightarrow> 2 + w * (b / 2 ^ j) < 1.9 * residual b w (b / 2 ^ j)"
    and eps: "EPSILON \<le> b / 2 ^ (k + n)"
    and pos: "\<And>j. k \<le> j \<Longrightarrow> j < k + n \<Longrightarrow> 0 < residual b w (b / 2 ^ Suc j)"
  shows "passes n w (- 2 * ln b + w * b) (halved b w k) = Continue (halved b w (k + n))"
  using slow eps pos
proof (induction n arbitrary: k)
  case 0
  then show ?case by simp
next
  case (Suc n)
  have "(2::real) ^ Suc k \<le> 2 ^ (k + Suc n)" by (intro power_increasing) simp_all
  then have "b / 2 ^ (k + Suc n) \<le> b / 2 ^ Suc k"
    using b by (intro divide_left_mono) simp_all
  with Suc.prems(2) have eps1: "EPSILON \<le> b / 2 ^ Suc k" by simp
  have p1: "solve_pass w (- 2 * ln b + w * b) (halved b w k) = Continue (halved b w (Suc k))"
    by (rule halved_pass [OF b w Suc.prems(1) eps1 Suc.prems(3)]) simp_all
  have "passes n w (- 2 * ln b + w * b) (halved b w (Suc k)) = Continue (halved b w (Suc k + n))"
  proof (rule Suc.IH)
    show "EPSILON \<le> b / 2 ^ (Suc k + n)" using Suc.prems(2) by simp
  next
    fix j assume "Suc k \<le> j" "j < Suc k + n"
    then show "2 + w * (b / 2 ^ j) < 1.9 * residual b w (b / 2 ^ j)"
      by (intro Suc.prems(1)) simp_all
  next
    fix j assume "Suc k \<le> j" "j < Suc k + n"
    then show "0 < residual b w (b / 2 ^ Suc j)"
      by (intro Suc.prems(3)) simp_all
  qed
  with p1 show ?case by simp
qed

lemma ln2_le_1: "ln (2::real) \<le> 1"
  using ln_le_minus_one [of "2::real"] by simp

lemma halved_pass_eps:
  assumes b: "0 < b" and w: "0 < w"
    and slow: "2 + w * (b / 2 ^ k) < 1.9 * residual b w (b / 2 ^ k)"
    and eps: "b / 2 ^ Suc k < EPSILON"
  shows "solve_pass w (- 2 * ln b + w * b) (halved b w k) = Return (b / 2 ^ Suc k)"
proof -
  define d where "d = b / 2 ^ k"
  define g where "g = residual b w d"
  have d: "0 < d" using b by (simp add: d_def)
  have g: "2 + w * d < 1.9 * g" using slow by (simp add: g_def d_def)
  have gpos: "0 < g"
  proof -
    have "0 < 2 + w * d" using d w by (simp add: add_pos_pos)
    then show ?thesis using g by simp
  qed
  have bis: "takes_bisection w (0, d, d, d, g, Some g)"
  proof -
    have "d * (2 / d + w) = 2 + w * d" using d by (simp add: field_simps)
    then have "\<bar>d * (2 / d + w)\<bar> = 2 + w * d" using d w by (simp add: add_pos_pos)
    moreover have "\<bar>1.9 * g\<bar> = 1.9 * g" using gpos by simp
    ultimately have "\<bar>1.9 * g\<bar> > \<bar>d * (2 / d + w)\<bar>" using g by simp
    then show ?thesis unfolding takes_bisection_def prod.case by (rule disjI2)
  qed
  have e: "(d - 0) / 2 = b / 2 ^ Suc k" by (simp add: d_def)
  have ne: "b / 2 ^ Suc k \<noteq> 0" using b by simp
  have iseps: "\<bar>b / 2 ^ Suc k\<bar> < EPSILON"
    using eps b by (simp add: abs_of_pos)
  have tail: "pass_tail w (- 2 * ln b + w * b) 0 d (Some g) (b / 2 ^ Suc k) (b / 2 ^ Suc k)
              = Return (b / 2 ^ Suc k)"
    using iseps by (simp only: pass_tail_def if_True)
  have "solve_pass w (- 2 * ln b + w * b) (halved b w k)
        = solve_pass w (- 2 * ln b + w * b) (0, d, d, d, g, Some g)"
    by (simp only: halved_def d_def g_def)
  also have "\<dots> = (if 0 + (d - 0) / 2 = 0 then Return (0 + (d - 0) / 2)
           else pass_tail w (- 2 * ln b + w * b) 0 d (Some g) ((d - 0) / 2) (0 + (d - 0) / 2))"
    by (rule solve_pass_bisection [OF bis])
  also have "\<dots> = pass_tail w (- 2 * ln b + w * b) 0 d (Some g) (b / 2 ^ Suc k) (b / 2 ^ Suc k)"
    unfolding e add_0 using ne by (simp only: if_False)
  finally show ?thesis by (simp only: tail)
qed

text \<open>The input b = 10^-6, w = 10^8.\<close>

lemma stiff_residual:
  assumes "k \<le> 20"
  shows "60 \<le> residual (1 / 10 ^ 6) (10 ^ 8) ((1 / 10 ^ 6) / 2 ^ k)"
proof -
  have "2 * real k * ln 2 \<le> 2 * real k * 1"
    by (intro mult_left_mono ln2_le_1) simp
  also have "\<dots> \<le> 40" using assms by simp
  finally have l: "2 * real k * ln 2 \<le> 40" .
  have p: "(0::real) \<le> 1 / 2 ^ k" by simp
  have "residual (1 / 10 ^ 6) (10 ^ 8) ((1 / 10 ^ 6) / 2 ^ k)
        = 10 ^ 8 * (1 / 10 ^ 6) * (1 + 1 / 2 ^ k) - 2 * real k * ln 2"
    by (rule residual_halved) simp
  also have "\<dots> = 100 + 100 * (1 / 2 ^ k) - 2 * real k * ln 2" by (simp add: algebra_simps)
  finally show ?thesis using l p by linarith
qed

lemma stiff_slow:
  assumes "1 \<le> k" "k \<le> 20"
  shows "2 + 10 ^ 8 * ((1 / 10 ^ 6) / 2 ^ k)
         < 1.9 * residual (1 / 10 ^ 6) (10 ^ 8) ((1 / 10 ^ 6) / 2 ^ k)"
proof -
  have "(2::real) ^ 1 \<le> 2 ^ k" using assms(1) by (intro power_increasing) simp_all
  then have h: "(1::real) / 2 ^ k \<le> 1 / 2" by (simp add: field_simps)
  have "(10 ^ 8 * ((1 / 10 ^ 6) / 2 ^ k) :: real) = 100 * (1 / 2 ^ k)" by simp
  with h have "2 + (10 ^ 8 * ((1 / 10 ^ 6) / 2 ^ k) :: real) \<le> 52" by linarith
  with stiff_residual [OF assms(2)] show ?thesis by linarith
qed

lemma stiff_19:
  "passes 19 (10 ^ 8) (- 2 * ln (1 / 10 ^ 6) + 10 ^ 8 * (1 / 10 ^ 6)) (start_vars (1 / 10 ^ 6) (10 ^ 8))
   = Continue (halved (1 / 10 ^ 6) (10 ^ 8) 19)"
proof -
  have f: "solve_pass (10 ^ 8) (- 2 * ln (1 / 10 ^ 6) + 10 ^ 8 * (1 / 10 ^ 6))
            (start_vars (1 / 10 ^ 6) (10 ^ 8)) = Continue (halved (1 / 10 ^ 6) (10 ^ 8) 1)"
  proof (rule first_pass)
    show "4 + 10 ^ 8 * (1 / 10 ^ 6) < 1.9 * residual (1 / 10 ^ 6) (10 ^ 8) ((1 / 10 ^ 6) / 2 ^ 1)"
      using stiff_residual [of 1] by simp
  qed (simp_all add: EPSILON_def)
  have r: "passes 18 (10 ^ 8) (- 2 * ln (1 / 10 ^ 6) + 10 ^ 8 * (1 / 10 ^ 6))
            (halved (1 / 10 ^ 6) (10 ^ 8) 1) = Continue (halved (1 / 10 ^ 6) (10 ^ 8) (1 + 18))"
  proof (rule halved_passes)
    fix j :: nat assume "1 \<le> j" "j < 1 + 18"
    then show "2 + 10 ^ 8 * ((1 / 10 ^ 6) / 2 ^ j)
         < 1.9 * residual (1 / 10 ^ 6) (10 ^ 8) ((1 / 10 ^ 6) / 2 ^ j)"
      by (intro stiff_slow) simp_all
  next
    fix j :: nat assume "1 \<le> j" "j < 1 + 18"
    then have "Suc j \<le> 20" by simp
    from stiff_residual [OF this]
    show "0 < residual (1 / 10 ^ 6) (10 ^ 8) ((1 / 10 ^ 6) / 2 ^ Suc j)" by linarith
  qed (simp_all add: EPSILON_def)
  have "passes (1 + 18) (10 ^ 8) (- 2 * ln (1 / 10 ^ 6) + 10 ^ 8 * (1 / 10 ^ 6))
          (start_vars (1 / 10 ^ 6) (10 ^ 8)) = Continue (halved (1 / 10 ^ 6) (10 ^ 8) (1 + 18))"
    unfolding passes_add using f r by simp
  then show ?thesis by simp
qed

lemma stiff_20:
  "solve_pass (10 ^ 8) (- 2 * ln (1 / 10 ^ 6) + 10 ^ 8 * (1 / 10 ^ 6))
     (halved (1 / 10 ^ 6) (10 ^ 8) 19) = Return ((1 / 10 ^ 6) / 2 ^ Suc 19)"
  by (rule halved_pass_eps) (use stiff_slow [of 19] in \<open>simp_all add: EPSILON_def\<close>)

lemma residual_mono:
  assumes "0 < x" "x \<le> y" "0 \<le> w"
  shows "residual b w x \<le> residual b w y"
proof -
  have "ln x \<le> ln y" using assms by simp
  moreover have "w * x \<le> w * y" using assms by (intro mult_left_mono)
  ultimately show ?thesis by (simp add: residual_def)
qed

text \<open>A Newton step from d lands at d (1 + x), where the residual is 2 ln (1 + x) - 2 x.\<close>

lemma newton_residual:
  assumes d: "0 < d" and w: "0 \<le> w" and f: "f = residual b w d" and lt: "f < 2 + w * d"
  defines "x \<equiv> - f / (2 + w * d)"
  shows "- 1 < x" and "d - f / (2 / d + w) = d * (1 + x)"
    and "residual b w (d * (1 + x)) = 2 * ln (1 + x) - 2 * x"
proof -
  have p: "0 < 2 + w * d" using d w by (simp add: add_pos_nonneg)
  have "f / (2 + w * d) < 1" using lt p by simp
  then show x: "- 1 < x" by (simp add: x_def)
  have df: "2 / d + w = (2 + w * d) / d" using d by (simp add: field_simps)
  show e: "d - f / (2 / d + w) = d * (1 + x)"
    unfolding df x_def using d p by (simp add: field_simps)
  have "residual b w (d * (1 + x)) = 2 * ln (d * (1 + x)) + w * (d * (1 + x)) + (- 2 * ln b + w * b)"
    by (simp add: residual_def)
  also have "ln (d * (1 + x)) = ln d + ln (1 + x)"
    using d x by (simp add: ln_mult_pos)
  also have "2 * (ln d + ln (1 + x)) + w * (d * (1 + x)) + (- 2 * ln b + w * b)
             = f + 2 * ln (1 + x) + w * d * x"
    by (simp add: f residual_def algebra_simps)
  also have "w * d * x = - f - 2 * x"
  proof -
    have "(2 + w * d) * x = - f" using p by (simp add: x_def)
    then show ?thesis by (simp add: algebra_simps)
  qed
  finally show "residual b w (d * (1 + x)) = 2 * ln (1 + x) - 2 * x"
    by simp
qed

text \<open>Bounds on 2 ln (1 + x) - 2 x.\<close>

lemma ln_gap_nonpos:
  assumes "- 1 < x"
  shows "2 * ln (1 + x) - 2 * x \<le> (0::real)"
  using ln_le_minus_one [of "1 + x"] assms by simp

lemma ln_gap_right:
  assumes "0 \<le> x" "x \<le> 1"
  shows "- 2 * x\<^sup>2 \<le> 2 * ln (1 + x) - 2 * (x::real)"
  using ln_one_plus_pos_lower_bound [OF assms] by simp

lemma ln_gap_left:
  assumes "0 \<le> y" "y \<le> 1 / 2"
  shows "- 4 * y\<^sup>2 \<le> 2 * ln (1 + (- y)) - 2 * (- y :: real)"
  using ln_one_minus_pos_lower_bound [OF assms] by simp

lemma not_takes_bisection:
  assumes df: "0 < 2 / d + w" and lo: "d_lo < d - f / (2 / d + w)" and hi: "d - f / (2 / d + w) < d_hi"
    and fast: "1.9 * \<bar>f\<bar> \<le> \<bar>last_delta * (2 / d + w)\<bar>"
  shows "\<not> takes_bisection w (d_lo, d_hi, d, last_delta, f, last_f)"
proof -
  define df where "df = 2 / d + w"
  define y where "y = d - f / df"
  have p: "0 < df" using df by (simp add: df_def)
  have e1: "(d - d_hi) * df - f = df * (y - d_hi)"
    using p by (simp add: y_def field_simps)
  have e2: "(d - d_lo) * df - f = df * (y - d_lo)"
    using p by (simp add: y_def field_simps)
  have "df * (y - d_hi) < 0" using p hi by (simp add: y_def df_def mult_less_0_iff)
  moreover have "0 < df * (y - d_lo)" using p lo by (simp add: y_def df_def)
  ultimately have "df * (y - d_hi) * (df * (y - d_lo)) < 0"
    by (rule mult_neg_pos)
  then have a: "\<not> ((d - d_hi) * df - f) * ((d - d_lo) * df - f) \<ge> 0"
    unfolding e1 e2 by simp
  have "\<bar>1.9 * f\<bar> = 1.9 * \<bar>f\<bar>" by (simp add: abs_mult)
  then have b: "\<not> \<bar>1.9 * f\<bar> > \<bar>last_delta * df\<bar>" using fast by (simp add: df_def)
  show ?thesis
    unfolding takes_bisection_def prod.case df_def [symmetric] using a b by blast
qed

text \<open>What a Newton pass does from a state whose estimate is the lower end of the bracket.\<close>

lemma newton_left_pass:
  assumes b: "0 < b" and w: "0 \<le> w" and c: "closing b w \<phi> vars" and phi: "\<phi> \<le> 7 / 10"
  shows "(\<exists>r. solve_pass w (- 2 * ln b + w * b) vars = Return r)
         \<or> (\<exists>vars'. solve_pass w (- 2 * ln b + w * b) vars = Continue vars'
                \<and> closing b w (\<phi>\<^sup>2 / 2) vars' \<and> EPSILON \<le> \<phi> * b / 2)"
proof -
  obtain d_lo d_hi d last_delta f last_f
    where v: "vars = (d_lo, d_hi, d, last_delta, f, last_f)"
    by (cases vars) auto
  from c have "d_lo = d \<and> 0 < d \<and> d < d_hi \<and> d_hi \<le> b \<and> f = residual b w d \<and> - \<phi> \<le> f
      \<and> f < 0 \<and> 0 < residual b w d_hi \<and> 1.9 * \<bar>f\<bar> \<le> \<bar>last_delta * (2 / d + w)\<bar>"
    unfolding closing_def v prod.case .
  then have lo: "d_lo = d" and d: "0 < d" and dh: "d < d_hi" and hb: "d_hi \<le> b"
    and f: "f = residual b w d" and fl: "- \<phi> \<le> f" and neg: "f < 0"
    and rh: "0 < residual b w d_hi" and fast: "1.9 * \<bar>f\<bar> \<le> \<bar>last_delta * (2 / d + w)\<bar>"
    by blast+
  define x where "x = - f / (2 + w * d)"
  define d' where "d' = d - f / (2 / d + w)"
  have p: "0 < 2 + w * d" using d w by (simp add: add_pos_nonneg)
  have df: "0 < 2 / d + w" using d w by (simp add: add_pos_nonneg)
  have lt: "f < 2 + w * d" using neg p by simp
  note nr = newton_residual [OF d w f lt, folded x_def d'_def]
  have x: "0 < x" using neg p by (simp add: x_def divide_neg_pos)
  have xle: "x \<le> \<phi> / 2"
  proof -
    have "- f / (2 + w * d) \<le> - f / 2"
      using neg d w by (intro divide_left_mono) (simp_all add: mult_nonneg_nonneg add_pos_nonneg)
    also have "\<dots> \<le> \<phi> / 2" using fl by simp
    finally show ?thesis by (simp add: x_def)
  qed
  have x35: "x \<le> 7 / 20" using xle phi by simp
  have d'pos: "d < d'" using d x by (simp add: nr(2))
  have r': "residual b w d' = 2 * ln (1 + x) - 2 * x" using nr(2) nr(3) by simp
  have r'le: "residual b w d' \<le> 0" unfolding r' by (rule ln_gap_nonpos [OF nr(1)])
  have r'ge: "- 2 * x\<^sup>2 \<le> residual b w d'"
    unfolding r' using x x35 by (intro ln_gap_right) simp_all
  have d'hi: "d' < d_hi"
  proof (rule ccontr)
    assume "\<not> d' < d_hi"
    then have "d_hi \<le> d'" by simp
    from residual_mono [OF _ this w, of b] d dh have "residual b w d_hi \<le> residual b w d'"
      by simp
    with rh r'le show False by simp
  qed
  have nb: "\<not> takes_bisection w (d_lo, d_hi, d, last_delta, f, last_f)"
    by (rule not_takes_bisection [OF df _ _ fast]) (use d'pos d'hi lo in \<open>simp_all add: d'_def\<close>)
  have ne: "d' \<noteq> d" using d'pos by simp
  have sp: "solve_pass w (- 2 * ln b + w * b) vars
            = pass_tail w (- 2 * ln b + w * b) d_lo d_hi last_f (f / (2 / d + w)) d'"
    unfolding v solve_pass_newton [OF nb] d'_def [symmetric] using ne by (simp only: if_False)
  have rd: "residual b w d' = 2 * ln d' + w * d' + (- 2 * ln b + w * b)"
    by (simp add: residual_def)
  from pass_tail_cases [OF rd, of d_lo d_hi last_f "f / (2 / d + w)"]
  show ?thesis
  proof (elim disjE conjE)
    assume "pass_tail w (- 2 * ln b + w * b) d_lo d_hi last_f (f / (2 / d + w)) d' = Return d'"
    then show ?thesis using sp by simp
  next
    assume noeps: "\<not> \<bar>f / (2 / d + w)\<bar> < EPSILON"
      and n: "residual b w d' < 0"
      and t: "pass_tail w (- 2 * ln b + w * b) d_lo d_hi last_f (f / (2 / d + w)) d'
              = Continue (d', d_hi, d', f / (2 / d + w), residual b w d', Some (residual b w d'))"
    have bound: "- (\<phi>\<^sup>2 / 2) \<le> residual b w d'"
    proof -
      have "x\<^sup>2 \<le> (\<phi> / 2)\<^sup>2" using x xle by (intro power_mono) simp_all
      then have "2 * x\<^sup>2 \<le> \<phi>\<^sup>2 / 2" by (simp add: power_divide)
      with r'ge show ?thesis by linarith
    qed
    have fast': "1.9 * \<bar>residual b w d'\<bar> \<le> \<bar>f / (2 / d + w) * (2 / d' + w)\<bar>"
    proof -
      have s: "f / (2 / d + w) = - (x * d)"
        using nr(2) by (simp add: d'_def algebra_simps)
      have a1: "\<bar>residual b w d'\<bar> \<le> 2 * x\<^sup>2" using r'le r'ge by simp
      have "1.9 * x * (1 + x) \<le> 1.9 * (7 / 20) * (1 + 7 / 20)"
        using x x35 by (intro mult_mono) simp_all
      then have q: "1.9 * x * (1 + x) \<le> 1" by simp
      have "1.9 * (2 * x\<^sup>2) = (2 * x / (1 + x)) * (1.9 * x * (1 + x))"
        using x by (simp add: power2_eq_square field_simps)
      also have "\<dots> \<le> (2 * x / (1 + x)) * 1"
        using x q by (intro mult_left_mono) simp_all
      also have "\<dots> = x * d * (2 / d')"
        using d x by (simp add: nr(2) [unfolded d'_def [symmetric]])
      also have "\<dots> \<le> x * d * (2 / d' + w)"
        using x d w by (intro mult_left_mono) simp_all
      also have "\<dots> = \<bar>f / (2 / d + w) * (2 / d' + w)\<bar>"
      proof -
        have "0 \<le> x * d * (2 / d' + w)" using x d d'pos w by simp
        then have "\<bar>x * d * (2 / d' + w)\<bar> = x * d * (2 / d' + w)" by (rule abs_of_nonneg)
        then show ?thesis unfolding s by simp
      qed
      finally show ?thesis using a1 by linarith
    qed
    have "closing b w (\<phi>\<^sup>2 / 2)
            (d', d_hi, d', f / (2 / d + w), residual b w d', Some (residual b w d'))"
      unfolding closing_def prod.case using d d'pos d'hi hb n rh bound fast' by auto
    moreover have "EPSILON \<le> \<phi> * b / 2"
    proof -
      have s: "f / (2 / d + w) = - (x * d)"
        using nr(2) by (simp add: d'_def algebra_simps)
      have "0 \<le> x * d" using x d by simp
      then have e: "\<bar>f / (2 / d + w)\<bar> = x * d" unfolding s by simp
      have "x * d \<le> (\<phi> / 2) * b"
        using x xle d dh hb by (intro mult_mono) simp_all
      then have "x * d \<le> \<phi> * b / 2" by simp
      moreover have "EPSILON \<le> x * d" using noeps unfolding e by simp
      ultimately show ?thesis by linarith
    qed
    ultimately show ?thesis using sp t by simp
  next
    assume "0 < residual b w d'"
    with r'le show ?thesis by simp
  qed
qed

lemma closing_returns:
  assumes b: "0 < b" and w: "0 \<le> w"
  shows "closing b w \<phi> vars \<Longrightarrow> 0 \<le> \<phi> \<Longrightarrow> \<phi> \<le> 7 / 10 \<Longrightarrow> squared n \<phi> * b / 2 < EPSILON \<Longrightarrow>
         \<exists>r. passes (Suc n) w (- 2 * ln b + w * b) vars = Return r"
proof (induction n arbitrary: \<phi> vars)
  case 0
  from newton_left_pass [OF b w 0(1) 0(3)] 0(4) show ?case by auto
next
  case (Suc n)
  have small: "\<phi>\<^sup>2 / 2 \<le> 7 / 10"
  proof -
    have "\<phi>\<^sup>2 \<le> (7 / 10)\<^sup>2" using Suc.prems(2,3) by (intro power_mono) simp_all
    then show ?thesis by (simp add: power2_eq_square)
  qed
  from newton_left_pass [OF b w Suc.prems(1) Suc.prems(3)]
  show ?case
  proof (elim disjE exE conjE)
    fix r assume "solve_pass w (- 2 * ln b + w * b) vars = Return r"
    then show ?thesis by simp
  next
    fix vars' assume sp: "solve_pass w (- 2 * ln b + w * b) vars = Continue vars'"
      and c: "closing b w (\<phi>\<^sup>2 / 2) vars'"
    from Suc.IH [OF c _ small] Suc.prems(4)
    obtain r where "passes (Suc n) w (- 2 * ln b + w * b) vars' = Return r" by auto
    then show ?thesis using sp by simp
  qed
qed

lemma passes_Return_add:
  "passes m w f_b vars = Return r \<Longrightarrow> passes (m + n) w f_b vars = Return r"
  by (simp add: passes_add)

text \<open>A Newton pass from the right, after a run of bisections.\<close>

lemma newton_right_pass:
  assumes b: "0 < b" and w: "0 \<le> w" and k: "1 \<le> k"
    and g: "0 < residual b w (b / 2 ^ k)" "residual b w (b / 2 ^ k) \<le> 4 / 5"
  shows "(\<exists>r. solve_pass w (- 2 * ln b + w * b) (halved b w k) = Return r)
         \<or> (\<exists>vars'. solve_pass w (- 2 * ln b + w * b) (halved b w k) = Continue vars'
                \<and> closing b w ((residual b w (b / 2 ^ k))\<^sup>2) vars')"
proof -
  define d where "d = b / 2 ^ k"
  define f where "f = residual b w d"
  define y where "y = f / (2 + w * d)"
  define d' where "d' = d - f / (2 / d + w)"
  have d: "0 < d" using b by (simp add: d_def)
  have db: "d \<le> b"
  proof -
    have "b / 2 ^ k \<le> b / 1" using b by (intro divide_left_mono) simp_all
    then show ?thesis by (simp add: d_def)
  qed
  have fpos: "0 < f" and f45: "f \<le> 4 / 5" using g by (simp_all add: f_def d_def)
  have p: "2 \<le> 2 + w * d" using d w by simp
  have df: "0 < 2 / d + w" using d w by (simp add: add_pos_nonneg)
  have lt: "f < 2 + w * d" using f45 p by simp
  have nr: "- 1 < - y" "d' = d * (1 + (- y))" "residual b w (d * (1 + (- y))) = 2 * ln (1 + (- y)) - 2 * (- y)"
    using newton_residual [OF d w f_def lt] by (simp_all add: y_def d'_def)
  have y: "0 < y" using fpos p by (simp add: y_def)
  have yle: "y \<le> f / 2"
    unfolding y_def using fpos p by (intro divide_left_mono) simp_all
  have y25: "y \<le> 2 / 5" using yle f45 by simp
  have d'pos: "0 < d'" using d nr(1) by (simp add: nr(2))
  have d'd: "d' < d" using d y by (simp add: nr(2))
  have r': "residual b w d' = 2 * ln (1 + (- y)) - 2 * (- y)" using nr(2) nr(3) by simp
  have r'le: "residual b w d' \<le> 0" unfolding r' by (rule ln_gap_nonpos [OF nr(1)])
  have r'ge: "- 4 * y\<^sup>2 \<le> residual b w d'"
    unfolding r' using y y25 by (intro ln_gap_left) simp_all
  have fast: "1.9 * \<bar>f\<bar> \<le> \<bar>d * (2 / d + w)\<bar>"
  proof -
    have "d * (2 / d + w) = 2 + w * d" using d by (simp add: field_simps)
    then show ?thesis using fpos f45 p by simp
  qed
  have nb: "\<not> takes_bisection w (0, d, d, d, f, Some f)"
    by (rule not_takes_bisection [OF df _ _ fast]) (use d'pos d'd in \<open>simp_all add: d'_def\<close>)
  have ne: "d' \<noteq> d" using d'd by simp
  have sp: "solve_pass w (- 2 * ln b + w * b) (halved b w k)
            = pass_tail w (- 2 * ln b + w * b) 0 d (Some f) (f / (2 / d + w)) d'"
    unfolding halved_def d_def [symmetric] f_def [symmetric] solve_pass_newton [OF nb]
      d'_def [symmetric] using ne by (simp only: if_False)
  have rd: "residual b w d' = 2 * ln d' + w * d' + (- 2 * ln b + w * b)"
    by (simp add: residual_def)
  from pass_tail_cases [OF rd, of 0 d "Some f" "f / (2 / d + w)"]
  show ?thesis
  proof (elim disjE conjE)
    assume "pass_tail w (- 2 * ln b + w * b) 0 d (Some f) (f / (2 / d + w)) d' = Return d'"
    then show ?thesis using sp by simp
  next
    assume n: "residual b w d' < 0"
      and t: "pass_tail w (- 2 * ln b + w * b) 0 d (Some f) (f / (2 / d + w)) d'
              = Continue (d', d, d', f / (2 / d + w), residual b w d', Some (residual b w d'))"
    have bound: "- (f\<^sup>2) \<le> residual b w d'"
    proof -
      have "y\<^sup>2 \<le> (f / 2)\<^sup>2" using y yle by (intro power_mono) simp_all
      then have "4 * y\<^sup>2 \<le> f\<^sup>2" by (simp add: power_divide)
      with r'ge show ?thesis by linarith
    qed
    have fast': "1.9 * \<bar>residual b w d'\<bar> \<le> \<bar>f / (2 / d + w) * (2 / d' + w)\<bar>"
    proof -
      have s: "f / (2 / d + w) = y * d"
        using nr(2) by (simp add: d'_def algebra_simps)
      have a1: "\<bar>residual b w d'\<bar> \<le> 4 * y\<^sup>2" using r'le r'ge by simp
      have "y * (1 - y) \<le> 1 / 4"
      proof -
        have "0 \<le> (y - 1 / 2)\<^sup>2" by simp
        then show ?thesis by (simp add: power2_eq_square algebra_simps)
      qed
      then have q: "3.8 * y * (1 - y) \<le> 1" by simp
      have y1: "0 < 1 - y" using y25 by simp
      have "1.9 * (4 * y\<^sup>2) = (2 * y / (1 - y)) * (3.8 * y * (1 - y))"
        using y1 by (simp add: power2_eq_square field_simps)
      also have "\<dots> \<le> (2 * y / (1 - y)) * 1"
        using y y1 q by (intro mult_left_mono) simp_all
      also have "\<dots> = y * d * (2 / d')"
        using d y1 by (simp add: nr(2))
      also have "\<dots> \<le> y * d * (2 / d' + w)"
        using y d w by (intro mult_left_mono) simp_all
      also have "\<dots> = \<bar>f / (2 / d + w) * (2 / d' + w)\<bar>"
      proof -
        have "0 \<le> y * d * (2 / d' + w)" using y d d'pos w by simp
        then have "\<bar>y * d * (2 / d' + w)\<bar> = y * d * (2 / d' + w)" by (rule abs_of_nonneg)
        then show ?thesis unfolding s by simp
      qed
      finally show ?thesis using a1 by linarith
    qed
    have "closing b w (f\<^sup>2)
            (d', d, d', f / (2 / d + w), residual b w d', Some (residual b w d'))"
      unfolding closing_def prod.case using d d'pos d'd db n fpos bound fast'
      by (auto simp: f_def)
    then show ?thesis using sp t by (simp add: f_def d_def)
  next
    assume "0 < residual b w d'"
    with r'le show ?thesis by simp
  qed
qed

text \<open>Bounds on the logarithms of 2 and 10, from 5/4 and 128/125.\<close>

lemma ln_5_4: "1 / 5 \<le> ln (5 / 4 :: real)" "ln (5 / 4 :: real) \<le> 1 / 4"
proof -
  have "ln (1 - 1 / 5 :: real) \<le> - (1 / 5)"
    by (rule ln_one_minus_pos_upper_bound) simp_all
  moreover have "ln (4 / 5 :: real) = - ln (5 / 4)"
    using ln_inverse [of "5 / 4 :: real"] by simp
  ultimately show "1 / 5 \<le> ln (5 / 4 :: real)" by simp
  show "ln (5 / 4 :: real) \<le> 1 / 4"
    using ln_add_one_self_le_self [of "1 / 4 :: real"] by simp
qed

lemma ln_128_125: "0 \<le> ln (128 / 125 :: real)" "ln (128 / 125 :: real) \<le> 3 / 125"
proof -
  show "0 \<le> ln (128 / 125 :: real)" by simp
  show "ln (128 / 125 :: real) \<le> 3 / 125"
    using ln_add_one_self_le_self [of "3 / 125 :: real"] by simp
qed

lemma ln_2_split: "ln (2::real) = 3 * ln (5 / 4) + ln (128 / 125)"
proof -
  have "(2::real) = (5 / 4) ^ 3 * (128 / 125)" by (simp add: power3_eq_cube)
  then have "ln (2::real) = ln ((5 / 4) ^ 3 * (128 / 125))" by simp
  also have "\<dots> = ln ((5 / 4 :: real) ^ 3) + ln (128 / 125)"
    by (rule ln_mult_pos) simp_all
  also have "ln ((5 / 4 :: real) ^ 3) = 3 * ln (5 / 4)" by (simp add: ln_realpow)
  finally show ?thesis .
qed

lemma ln_10_split: "ln (10::real) = 10 * ln (5 / 4) + 3 * ln (128 / 125)"
proof -
  have "(10::real) = 2 ^ 3 * (5 / 4)" by simp
  then have "ln (10::real) = ln (2 ^ 3 * (5 / 4))" by (simp only:)
  also have "\<dots> = ln ((2 :: real) ^ 3) + ln (5 / 4)"
    by (rule ln_mult_pos) simp_all
  also have "ln ((2 :: real) ^ 3) = 3 * ln 2" using ln_realpow [of "2::real" 3] by (simp only: of_nat_numeral)
  finally show ?thesis by (simp only: ln_2_split) simp
qed

text \<open>The input b = 4.5 ln 10, w = 25/18, which the constructor passes for T / r = 10^-8.\<close>

lemma wide_b: "9 \<le> M * LN_10" "M * LN_10 \<le> 12" "0 < M * LN_10"
proof -
  define v where "v = ln (5 / 4 :: real)"
  define e where "e = ln (128 / 125 :: real)"
  have v: "1 / 5 \<le> v" "v \<le> 1 / 4" and e: "0 \<le> e" "e \<le> 3 / 125"
    using ln_5_4 ln_128_125 by (simp_all only: v_def e_def)
  have m: "M * LN_10 = 45 * v + 27 / 2 * e"
    by (simp add: M_def LN_10_def ln_10_split v_def e_def)
  show "9 \<le> M * LN_10" "M * LN_10 \<le> 12" "0 < M * LN_10"
    unfolding m using v e by linarith+
qed

lemma wide_wb: "25 / 18 * (M * LN_10) = 125 / 2 * ln (5 / 4) + 75 / 4 * ln (128 / 125)"
  by (simp add: M_def LN_10_def ln_10_split)

lemma wide_residual:
  "residual (M * LN_10) (25 / 18) (M * LN_10 / 2 ^ k)
   = (125 / 2 * ln (5 / 4) + 75 / 4 * ln (128 / 125)) * (1 + 1 / 2 ^ k)
     - 2 * real k * (3 * ln (5 / 4) + ln (128 / 125))"
  using residual_halved [OF wide_b(3), of "25 / 18" k]
  by (simp only: wide_wb ln_2_split)

lemma wide_residual_minus:
  "residual (M * LN_10) (25 / 18) (M * LN_10 / 2 ^ k) - 25 / 18 * (M * LN_10 / 2 ^ k)
   = 125 / 2 * ln (5 / 4) + 75 / 4 * ln (128 / 125) - 2 * real k * (3 * ln (5 / 4) + ln (128 / 125))"
proof -
  have "25 / 18 * (M * LN_10 / 2 ^ k) = (25 / 18 * (M * LN_10)) * (1 / 2 ^ k)" by simp
  then have "25 / 18 * (M * LN_10 / 2 ^ k)
             = (125 / 2 * ln (5 / 4) + 75 / 4 * ln (128 / 125)) * (1 / 2 ^ k)"
    by (simp only: wide_wb)
  then show ?thesis unfolding wide_residual by (simp only: distrib_left mult_1_right)
qed

lemma wide_residual_ge:
  assumes "k \<le> 9"
  shows "17 / 10 \<le> residual (M * LN_10) (25 / 18) (M * LN_10 / 2 ^ k) - 25 / 18 * (M * LN_10 / 2 ^ k)"
proof -
  define v where "v = ln (5 / 4 :: real)"
  define e where "e = ln (128 / 125 :: real)"
  have v: "1 / 5 \<le> v" "v \<le> 1 / 4" and e: "0 \<le> e" "e \<le> 3 / 125"
    using ln_5_4 ln_128_125 by (simp_all only: v_def e_def)
  have k: "real k \<le> 9" using assms by simp
  define z where "z = real k * (3 * v + e)"
  have "z \<le> 9 * (3 * v + e)"
    unfolding z_def using k v e by (intro mult_right_mono) simp_all
  then have "17 / 10 \<le> 125 / 2 * v + 75 / 4 * e - 2 * z" using v e by simp
  moreover have "2 * real k * (3 * v + e) = 2 * z" by (simp add: z_def)
  ultimately show ?thesis
    unfolding wide_residual_minus v_def [symmetric] e_def [symmetric] by simp
qed

lemma wide_residual_10:
  "0 < residual (M * LN_10) (25 / 18) (M * LN_10 / 2 ^ 10)"
  "residual (M * LN_10) (25 / 18) (M * LN_10 / 2 ^ 10) \<le> 4 / 5"
proof -
  define v where "v = ln (5 / 4 :: real)"
  define e where "e = ln (128 / 125 :: real)"
  have v: "1 / 5 \<le> v" "v \<le> 1 / 4" and e: "0 \<le> e" "e \<le> 3 / 125"
    using ln_5_4 ln_128_125 by (simp_all only: v_def e_def)
  have "residual (M * LN_10) (25 / 18) (M * LN_10 / 2 ^ 10)
           = (125 / 2 * v + 75 / 4 * e) * (1 + 1 / 2 ^ 10) - 2 * real 10 * (3 * v + e)"
    unfolding wide_residual v_def e_def ..
  also have "\<dots> = 5245 / 2048 * v - 5045 / 4096 * e" by (simp add: algebra_simps)
  finally have r: "residual (M * LN_10) (25 / 18) (M * LN_10 / 2 ^ 10)
           = 5245 / 2048 * v - 5045 / 4096 * e" .
  show "0 < residual (M * LN_10) (25 / 18) (M * LN_10 / 2 ^ 10)"
    unfolding r using v e by linarith
  show "residual (M * LN_10) (25 / 18) (M * LN_10 / 2 ^ 10) \<le> 4 / 5"
    unfolding r using v e by linarith
qed

lemma closing_mono:
  "closing b w \<phi> vars \<Longrightarrow> \<phi> \<le> \<phi>' \<Longrightarrow> closing b w \<phi>' vars"
  unfolding closing_def by (cases vars) auto

lemma wide_slow:
  assumes "k \<le> 9"
  shows "2 + 25 / 18 * (M * LN_10 / 2 ^ k)
         < 1.9 * residual (M * LN_10) (25 / 18) (M * LN_10 / 2 ^ k)"
proof -
  define q where "q = 25 / 18 * (M * LN_10 / 2 ^ k)"
  define r where "r = residual (M * LN_10) (25 / 18) (M * LN_10 / 2 ^ k)"
  have "0 \<le> q" using wide_b(3) by (simp add: q_def)
  moreover have "17 / 10 \<le> r - q" using wide_residual_ge [OF assms] by (simp only: q_def r_def)
  ultimately have "2 + q < 1.9 * r" by linarith
  then show ?thesis by (simp only: q_def r_def)
qed

lemma wide_first:
  "4 + 25 / 18 * (M * LN_10) < 1.9 * residual (M * LN_10) (25 / 18) (M * LN_10 / 2 ^ 1)"
proof -
  define v where "v = ln (5 / 4 :: real)"
  define e where "e = ln (128 / 125 :: real)"
  have v: "1 / 5 \<le> v" "v \<le> 1 / 4" and e: "0 \<le> e" "e \<le> 3 / 125"
    using ln_5_4 ln_128_125 by (simp_all only: v_def e_def)
  have "residual (M * LN_10) (25 / 18) (M * LN_10 / 2 ^ 1)
        = (125 / 2 * v + 75 / 4 * e) * (1 + 1 / 2 ^ 1) - 2 * real 1 * (3 * v + e)"
    unfolding wide_residual v_def e_def ..
  also have "\<dots> = 351 / 4 * v + 209 / 8 * e" by (simp add: algebra_simps)
  finally have r: "residual (M * LN_10) (25 / 18) (M * LN_10 / 2 ^ 1) = 351 / 4 * v + 209 / 8 * e" .
  show ?thesis
    unfolding r wide_wb v_def [symmetric] e_def [symmetric] using v e by simp
qed

lemma wide_10:
  "passes 10 (25 / 18) (- 2 * ln (M * LN_10) + 25 / 18 * (M * LN_10)) (start_vars (M * LN_10) (25 / 18))
   = Continue (halved (M * LN_10) (25 / 18) 10)"
proof -
  have eps: "EPSILON \<le> M * LN_10 / 2 ^ 10"
  proof -
    have "EPSILON \<le> 9 / 2 ^ 10" by (simp add: EPSILON_def)
    also have "\<dots> \<le> M * LN_10 / 2 ^ 10" using wide_b(1) by (intro divide_right_mono) simp_all
    finally show ?thesis .
  qed
  have eps1: "EPSILON \<le> M * LN_10 / 2 ^ 1"
  proof -
    have "EPSILON \<le> 9 / 2 ^ 1" by (simp add: EPSILON_def)
    also have "\<dots> \<le> M * LN_10 / 2 ^ 1" using wide_b(1) by (intro divide_right_mono) simp_all
    finally show ?thesis .
  qed
  have f: "solve_pass (25 / 18) (- 2 * ln (M * LN_10) + 25 / 18 * (M * LN_10))
            (start_vars (M * LN_10) (25 / 18)) = Continue (halved (M * LN_10) (25 / 18) 1)"
    by (rule first_pass [OF wide_b(3) _ wide_first eps1]) simp
  have r: "passes 9 (25 / 18) (- 2 * ln (M * LN_10) + 25 / 18 * (M * LN_10))
            (halved (M * LN_10) (25 / 18) 1) = Continue (halved (M * LN_10) (25 / 18) (1 + 9))"
  proof (rule halved_passes [OF wide_b(3)])
    fix j :: nat assume "1 \<le> j" "j < 1 + 9"
    then show "2 + 25 / 18 * (M * LN_10 / 2 ^ j)
         < 1.9 * residual (M * LN_10) (25 / 18) (M * LN_10 / 2 ^ j)"
      by (intro wide_slow) simp
  next
    fix j :: nat assume j: "1 \<le> j" "j < 1 + 9"
    show "0 < residual (M * LN_10) (25 / 18) (M * LN_10 / 2 ^ Suc j)"
    proof (cases "Suc j = 10")
      case True
      then show ?thesis using wide_residual_10(1) by simp
    next
      case False
      with j have "Suc j \<le> 9" by simp
      from wide_slow [OF this]
      have "2 + 25 / 18 * (M * LN_10 / 2 ^ Suc j)
            < 1.9 * residual (M * LN_10) (25 / 18) (M * LN_10 / 2 ^ Suc j)" .
      moreover have "0 \<le> 25 / 18 * (M * LN_10 / 2 ^ Suc j)" using wide_b(3) by simp
      ultimately show ?thesis by linarith
    qed
  next
    show "EPSILON \<le> M * LN_10 / 2 ^ (1 + 9)" using eps by simp
  qed simp
  have "passes (1 + 9) (25 / 18) (- 2 * ln (M * LN_10) + 25 / 18 * (M * LN_10))
          (start_vars (M * LN_10) (25 / 18)) = Continue (halved (M * LN_10) (25 / 18) (1 + 9))"
    unfolding passes_add using f r by simp
  then show ?thesis by simp
qed

lemma wide_returns:
  "\<exists>r. passes 7 (25 / 18) (- 2 * ln (M * LN_10) + 25 / 18 * (M * LN_10))
          (halved (M * LN_10) (25 / 18) 10) = Return r"
proof -
  define g where "g = residual (M * LN_10) (25 / 18) (M * LN_10 / 2 ^ 10)"
  have g: "0 < g" "g \<le> 4 / 5" using wide_residual_10 by (simp_all add: g_def)
  have g2: "g\<^sup>2 \<le> 16 / 25"
  proof -
    have "g\<^sup>2 \<le> (4 / 5)\<^sup>2" using g by (intro power_mono) simp_all
    then show ?thesis by (simp add: power2_eq_square)
  qed
  have small: "squared 5 (16 / 25) * (M * LN_10) / 2 < EPSILON"
  proof -
    have "squared 5 (16 / 25) * (M * LN_10) \<le> squared 5 (16 / 25) * 12"
      using wide_b(2) by (intro mult_left_mono) (simp_all add: eval_nat_numeral)
    moreover have "squared 5 (16 / 25) * 12 / 2 < EPSILON"
      by (simp add: eval_nat_numeral EPSILON_def)
    ultimately show ?thesis by simp
  qed
  have "(\<exists>r. solve_pass (25 / 18) (- 2 * ln (M * LN_10) + 25 / 18 * (M * LN_10))
              (halved (M * LN_10) (25 / 18) 10) = Return r)
        \<or> (\<exists>vars'. solve_pass (25 / 18) (- 2 * ln (M * LN_10) + 25 / 18 * (M * LN_10))
              (halved (M * LN_10) (25 / 18) 10) = Continue vars'
            \<and> closing (M * LN_10) (25 / 18)
                ((residual (M * LN_10) (25 / 18) (M * LN_10 / 2 ^ 10))\<^sup>2) vars')"
    by (rule newton_right_pass [OF wide_b(3) _ _ wide_residual_10]) simp_all
  then show ?thesis
  proof (elim disjE exE conjE)
    fix r assume "solve_pass (25 / 18) (- 2 * ln (M * LN_10) + 25 / 18 * (M * LN_10))
                    (halved (M * LN_10) (25 / 18) 10) = Return r"
    then have "passes (Suc 6) (25 / 18) (- 2 * ln (M * LN_10) + 25 / 18 * (M * LN_10))
                    (halved (M * LN_10) (25 / 18) 10) = Return r"
      by (simp only: passes.simps pass.case)
    then show ?thesis by (simp only: eval_nat_numeral) blast
  next
    fix vars' assume sp: "solve_pass (25 / 18) (- 2 * ln (M * LN_10) + 25 / 18 * (M * LN_10))
                    (halved (M * LN_10) (25 / 18) 10) = Continue vars'"
      and c: "closing (M * LN_10) (25 / 18) ((residual (M * LN_10) (25 / 18) (M * LN_10 / 2 ^ 10))\<^sup>2) vars'"
    from c g2 have c': "closing (M * LN_10) (25 / 18) (16 / 25) vars'"
      by (intro closing_mono [OF c]) (simp add: g_def)
    from closing_returns [OF wide_b(3) _ c' _ _ small]
    obtain r where p6: "passes (Suc 5) (25 / 18) (- 2 * ln (M * LN_10) + 25 / 18 * (M * LN_10)) vars'
                    = Return r" by auto
    have e7: "(7::nat) = Suc (Suc 5)" by simp
    show ?thesis
      unfolding e7 passes.simps(2) [of "Suc 5"] sp pass.case using p6 by blast
  qed
qed

lemma wide_solve:
  "\<exists>d. solve (M * LN_10) (25 / 18) = Inr d \<and> 0 < d \<and> d < M * LN_10"
proof -
  from wide_returns obtain r
    where r: "passes 7 (25 / 18) (- 2 * ln (M * LN_10) + 25 / 18 * (M * LN_10))
                (halved (M * LN_10) (25 / 18) 10) = Return r" by auto
  have "passes (10 + 7) (25 / 18) (- 2 * ln (M * LN_10) + 25 / 18 * (M * LN_10))
          (start_vars (M * LN_10) (25 / 18)) = Return r"
    unfolding passes_add wide_10 using r by simp
  from passes_Return_add [OF this, of 2]
  have "passes 19 (25 / 18) (- 2 * ln (M * LN_10) + 25 / 18 * (M * LN_10))
          (start_vars (M * LN_10) (25 / 18)) = Return r" by simp
  then have s: "solve (M * LN_10) (25 / 18) = Inr r" by (simp add: solve_passes)
  from solve_result_range [OF wide_b(3) _ s] show ?thesis using s by simp
qed

text \<open>The input b = 4.5 ln 10, w = 5/6, which the constructor passes for T / r = 10^-3.\<close>

lemma mid_wb: "5 / 6 * (M * LN_10) = 75 / 2 * ln (5 / 4) + 45 / 4 * ln (128 / 125)"
  by (simp add: M_def LN_10_def ln_10_split)

lemma mid_residual:
  "residual (M * LN_10) (5 / 6) (M * LN_10 / 2 ^ k)
   = (75 / 2 * ln (5 / 4) + 45 / 4 * ln (128 / 125)) * (1 + 1 / 2 ^ k)
     - 2 * real k * (3 * ln (5 / 4) + ln (128 / 125))"
  using residual_halved [OF wide_b(3), of "5 / 6" k]
  by (simp only: mid_wb ln_2_split)

lemma mid_residual_minus:
  "residual (M * LN_10) (5 / 6) (M * LN_10 / 2 ^ k) - 5 / 6 * (M * LN_10 / 2 ^ k)
   = 75 / 2 * ln (5 / 4) + 45 / 4 * ln (128 / 125) - 2 * real k * (3 * ln (5 / 4) + ln (128 / 125))"
proof -
  have "5 / 6 * (M * LN_10 / 2 ^ k) = (5 / 6 * (M * LN_10)) * (1 / 2 ^ k)" by simp
  then have "5 / 6 * (M * LN_10 / 2 ^ k)
             = (75 / 2 * ln (5 / 4) + 45 / 4 * ln (128 / 125)) * (1 / 2 ^ k)"
    by (simp only: mid_wb)
  then show ?thesis unfolding mid_residual by (simp only: distrib_left mult_1_right)
qed

lemma mid_residual_ge:
  assumes "k \<le> 5"
  shows "3 / 2 \<le> residual (M * LN_10) (5 / 6) (M * LN_10 / 2 ^ k) - 5 / 6 * (M * LN_10 / 2 ^ k)"
proof -
  define v where "v = ln (5 / 4 :: real)"
  define e where "e = ln (128 / 125 :: real)"
  have v: "1 / 5 \<le> v" "v \<le> 1 / 4" and e: "0 \<le> e" "e \<le> 3 / 125"
    using ln_5_4 ln_128_125 by (simp_all only: v_def e_def)
  have k: "real k \<le> 5" using assms by simp
  define z where "z = real k * (3 * v + e)"
  have "z \<le> 5 * (3 * v + e)"
    unfolding z_def using k v e by (intro mult_right_mono) simp_all
  then have "3 / 2 \<le> 75 / 2 * v + 45 / 4 * e - 2 * z" using v e by simp
  moreover have "2 * real k * (3 * v + e) = 2 * z" by (simp add: z_def)
  ultimately show ?thesis
    unfolding mid_residual_minus v_def [symmetric] e_def [symmetric] by simp
qed

lemma mid_residual_6:
  "0 < residual (M * LN_10) (5 / 6) (M * LN_10 / 2 ^ 6)"
  "residual (M * LN_10) (5 / 6) (M * LN_10 / 2 ^ 6) \<le> 4 / 5"
proof -
  define v where "v = ln (5 / 4 :: real)"
  define e where "e = ln (128 / 125 :: real)"
  have v: "1 / 5 \<le> v" "v \<le> 1 / 4" and e: "0 \<le> e" "e \<le> 3 / 125"
    using ln_5_4 ln_128_125 by (simp_all only: v_def e_def)
  have "residual (M * LN_10) (5 / 6) (M * LN_10 / 2 ^ 6)
           = (75 / 2 * v + 45 / 4 * e) * (1 + 1 / 2 ^ 6) - 2 * real 6 * (3 * v + e)"
    unfolding mid_residual v_def e_def ..
  also have "\<dots> = 267 / 128 * v - 147 / 256 * e" by (simp add: algebra_simps)
  finally have r: "residual (M * LN_10) (5 / 6) (M * LN_10 / 2 ^ 6)
           = 267 / 128 * v - 147 / 256 * e" .
  show "0 < residual (M * LN_10) (5 / 6) (M * LN_10 / 2 ^ 6)"
    unfolding r using v e by linarith
  show "residual (M * LN_10) (5 / 6) (M * LN_10 / 2 ^ 6) \<le> 4 / 5"
    unfolding r using v e by linarith
qed

lemma mid_slow:
  assumes "k \<le> 5"
  shows "2 + 5 / 6 * (M * LN_10 / 2 ^ k)
         < 1.9 * residual (M * LN_10) (5 / 6) (M * LN_10 / 2 ^ k)"
proof -
  define q where "q = 5 / 6 * (M * LN_10 / 2 ^ k)"
  define r where "r = residual (M * LN_10) (5 / 6) (M * LN_10 / 2 ^ k)"
  have "0 \<le> q" using wide_b(3) by (simp add: q_def)
  moreover have "3 / 2 \<le> r - q" using mid_residual_ge [OF assms] by (simp only: q_def r_def)
  ultimately have "2 + q < 1.9 * r" by linarith
  then show ?thesis by (simp only: q_def r_def)
qed

lemma mid_first:
  "4 + 5 / 6 * (M * LN_10) < 1.9 * residual (M * LN_10) (5 / 6) (M * LN_10 / 2 ^ 1)"
proof -
  define v where "v = ln (5 / 4 :: real)"
  define e where "e = ln (128 / 125 :: real)"
  have v: "1 / 5 \<le> v" "v \<le> 1 / 4" and e: "0 \<le> e" "e \<le> 3 / 125"
    using ln_5_4 ln_128_125 by (simp_all only: v_def e_def)
  have "residual (M * LN_10) (5 / 6) (M * LN_10 / 2 ^ 1)
        = (75 / 2 * v + 45 / 4 * e) * (1 + 1 / 2 ^ 1) - 2 * real 1 * (3 * v + e)"
    unfolding mid_residual v_def e_def ..
  also have "\<dots> = 201 / 4 * v + 119 / 8 * e" by (simp add: algebra_simps)
  finally have r: "residual (M * LN_10) (5 / 6) (M * LN_10 / 2 ^ 1) = 201 / 4 * v + 119 / 8 * e" .
  show ?thesis
    unfolding r mid_wb v_def [symmetric] e_def [symmetric] using v e by simp
qed

lemma mid_6:
  "passes 6 (5 / 6) (- 2 * ln (M * LN_10) + 5 / 6 * (M * LN_10)) (start_vars (M * LN_10) (5 / 6))
   = Continue (halved (M * LN_10) (5 / 6) 6)"
proof -
  have eps: "EPSILON \<le> M * LN_10 / 2 ^ 6"
  proof -
    have "EPSILON \<le> 9 / 2 ^ 6" by (simp add: EPSILON_def)
    also have "\<dots> \<le> M * LN_10 / 2 ^ 6" using wide_b(1) by (intro divide_right_mono) simp_all
    finally show ?thesis .
  qed
  have eps1: "EPSILON \<le> M * LN_10 / 2 ^ 1"
  proof -
    have "EPSILON \<le> 9 / 2 ^ 1" by (simp add: EPSILON_def)
    also have "\<dots> \<le> M * LN_10 / 2 ^ 1" using wide_b(1) by (intro divide_right_mono) simp_all
    finally show ?thesis .
  qed
  have f: "solve_pass (5 / 6) (- 2 * ln (M * LN_10) + 5 / 6 * (M * LN_10))
            (start_vars (M * LN_10) (5 / 6)) = Continue (halved (M * LN_10) (5 / 6) 1)"
    by (rule first_pass [OF wide_b(3) _ mid_first eps1]) simp
  have r: "passes 5 (5 / 6) (- 2 * ln (M * LN_10) + 5 / 6 * (M * LN_10))
            (halved (M * LN_10) (5 / 6) 1) = Continue (halved (M * LN_10) (5 / 6) (1 + 5))"
  proof (rule halved_passes [OF wide_b(3)])
    fix j :: nat assume "1 \<le> j" "j < 1 + 5"
    then show "2 + 5 / 6 * (M * LN_10 / 2 ^ j)
         < 1.9 * residual (M * LN_10) (5 / 6) (M * LN_10 / 2 ^ j)"
      by (intro mid_slow) simp
  next
    fix j :: nat assume j: "1 \<le> j" "j < 1 + 5"
    show "0 < residual (M * LN_10) (5 / 6) (M * LN_10 / 2 ^ Suc j)"
    proof (cases "Suc j = 6")
      case True
      then show ?thesis using mid_residual_6(1) by simp
    next
      case False
      with j have "Suc j \<le> 5" by simp
      from mid_slow [OF this]
      have "2 + 5 / 6 * (M * LN_10 / 2 ^ Suc j)
            < 1.9 * residual (M * LN_10) (5 / 6) (M * LN_10 / 2 ^ Suc j)" .
      moreover have "0 \<le> 5 / 6 * (M * LN_10 / 2 ^ Suc j)" using wide_b(3) by simp
      ultimately show ?thesis by linarith
    qed
  next
    show "EPSILON \<le> M * LN_10 / 2 ^ (1 + 5)" using eps by simp
  qed simp
  have "passes (1 + 5) (5 / 6) (- 2 * ln (M * LN_10) + 5 / 6 * (M * LN_10))
          (start_vars (M * LN_10) (5 / 6)) = Continue (halved (M * LN_10) (5 / 6) (1 + 5))"
    unfolding passes_add using f r by simp
  then show ?thesis by simp
qed

lemma mid_returns:
  "\<exists>r. passes 7 (5 / 6) (- 2 * ln (M * LN_10) + 5 / 6 * (M * LN_10))
          (halved (M * LN_10) (5 / 6) 6) = Return r"
proof -
  define g where "g = residual (M * LN_10) (5 / 6) (M * LN_10 / 2 ^ 6)"
  have g: "0 < g" "g \<le> 4 / 5" using mid_residual_6 by (simp_all add: g_def)
  have g2: "g\<^sup>2 \<le> 16 / 25"
  proof -
    have "g\<^sup>2 \<le> (4 / 5)\<^sup>2" using g by (intro power_mono) simp_all
    then show ?thesis by (simp add: power2_eq_square)
  qed
  have small: "squared 5 (16 / 25) * (M * LN_10) / 2 < EPSILON"
  proof -
    have "squared 5 (16 / 25) * (M * LN_10) \<le> squared 5 (16 / 25) * 12"
      using wide_b(2) by (intro mult_left_mono) (simp_all add: eval_nat_numeral)
    moreover have "squared 5 (16 / 25) * 12 / 2 < EPSILON"
      by (simp add: eval_nat_numeral EPSILON_def)
    ultimately show ?thesis by simp
  qed
  have "(\<exists>r. solve_pass (5 / 6) (- 2 * ln (M * LN_10) + 5 / 6 * (M * LN_10))
              (halved (M * LN_10) (5 / 6) 6) = Return r)
        \<or> (\<exists>vars'. solve_pass (5 / 6) (- 2 * ln (M * LN_10) + 5 / 6 * (M * LN_10))
              (halved (M * LN_10) (5 / 6) 6) = Continue vars'
            \<and> closing (M * LN_10) (5 / 6)
                ((residual (M * LN_10) (5 / 6) (M * LN_10 / 2 ^ 6))\<^sup>2) vars')"
    by (rule newton_right_pass [OF wide_b(3) _ _ mid_residual_6]) simp_all
  then show ?thesis
  proof (elim disjE exE conjE)
    fix r assume "solve_pass (5 / 6) (- 2 * ln (M * LN_10) + 5 / 6 * (M * LN_10))
                    (halved (M * LN_10) (5 / 6) 6) = Return r"
    then have "passes (Suc 6) (5 / 6) (- 2 * ln (M * LN_10) + 5 / 6 * (M * LN_10))
                    (halved (M * LN_10) (5 / 6) 6) = Return r"
      by (simp only: passes.simps pass.case)
    then show ?thesis by (simp only: eval_nat_numeral) blast
  next
    fix vars' assume sp: "solve_pass (5 / 6) (- 2 * ln (M * LN_10) + 5 / 6 * (M * LN_10))
                    (halved (M * LN_10) (5 / 6) 6) = Continue vars'"
      and c: "closing (M * LN_10) (5 / 6) ((residual (M * LN_10) (5 / 6) (M * LN_10 / 2 ^ 6))\<^sup>2) vars'"
    from c g2 have c': "closing (M * LN_10) (5 / 6) (16 / 25) vars'"
      by (intro closing_mono [OF c]) (simp add: g_def)
    from closing_returns [OF wide_b(3) _ c' _ _ small]
    obtain r where p6: "passes (Suc 5) (5 / 6) (- 2 * ln (M * LN_10) + 5 / 6 * (M * LN_10)) vars'
                    = Return r" by auto
    have e7: "(7::nat) = Suc (Suc 5)" by simp
    show ?thesis
      unfolding e7 passes.simps(2) [of "Suc 5"] sp pass.case using p6 by blast
  qed
qed

lemma mid_solve:
  "\<exists>d. solve (M * LN_10) (5 / 6) = Inr d \<and> 0 < d \<and> d < M * LN_10"
proof -
  from mid_returns obtain r
    where r: "passes 7 (5 / 6) (- 2 * ln (M * LN_10) + 5 / 6 * (M * LN_10))
                (halved (M * LN_10) (5 / 6) 6) = Return r" by auto
  have "passes (6 + 7) (5 / 6) (- 2 * ln (M * LN_10) + 5 / 6 * (M * LN_10))
          (start_vars (M * LN_10) (5 / 6)) = Return r"
    unfolding passes_add mid_6 using r by simp
  from passes_Return_add [OF this, of 6]
  have "passes 19 (5 / 6) (- 2 * ln (M * LN_10) + 5 / 6 * (M * LN_10))
          (start_vars (M * LN_10) (5 / 6)) = Return r" by simp
  then have s: "solve (M * LN_10) (5 / 6) = Inr r" by (simp add: solve_passes)
  from solve_result_range [OF wide_b(3) _ s] show ?thesis using s by simp
qed











lemma pass_tail_Return:
  "pass_tail w f_b d_lo d_hi last_f delta d' = Return r \<longleftrightarrow>
   r = d' \<and> (\<bar>delta\<bar> < EPSILON \<or> 2 * ln d' + w * d' + f_b = 0
              \<or> Some (2 * ln d' + w * d' + f_b) = last_f)"
  by (auto simp: pass_tail_def Let_def)

lemma solve_pass_Return:
  "solve_pass w f_b vars = Return r \<longleftrightarrow> early_exit w f_b vars r"
proof -
  obtain d_lo d_hi d last_delta f last_f
    where v: "vars = (d_lo, d_hi, d, last_delta, f, last_f)"
    by (cases vars) auto
  show ?thesis
  proof (cases "takes_bisection w vars")
    case True
    then have t: "takes_bisection w (d_lo, d_hi, d, last_delta, f, last_f)" by (simp add: v)
    have ee: "early_exit w f_b vars r \<longleftrightarrow>
        r = d_lo + (d_hi - d_lo) / 2
        \<and> (d_lo + (d_hi - d_lo) / 2 = d_lo \<or> \<bar>(d_hi - d_lo) / 2\<bar> < EPSILON
           \<or> 2 * ln (d_lo + (d_hi - d_lo) / 2) + w * (d_lo + (d_hi - d_lo) / 2) + f_b = 0
           \<or> Some (2 * ln (d_lo + (d_hi - d_lo) / 2) + w * (d_lo + (d_hi - d_lo) / 2) + f_b)
              = last_f)"
      unfolding v early_exit_def prod.case Let_def using t by (simp only: if_True)
    show ?thesis
      unfolding ee unfolding v solve_pass_bisection [OF t]
      by (auto simp only: pass_tail_Return split: if_splits)
  next
    case False
    then have t: "\<not> takes_bisection w (d_lo, d_hi, d, last_delta, f, last_f)" by (simp add: v)
    have ee: "early_exit w f_b vars r \<longleftrightarrow>
        r = d - f / (2 / d + w)
        \<and> (d - f / (2 / d + w) = d \<or> \<bar>f / (2 / d + w)\<bar> < EPSILON
           \<or> 2 * ln (d - f / (2 / d + w)) + w * (d - f / (2 / d + w)) + f_b = 0
           \<or> Some (2 * ln (d - f / (2 / d + w)) + w * (d - f / (2 / d + w)) + f_b) = last_f)"
      unfolding v early_exit_def prod.case Let_def using t by (simp only: if_False)
    show ?thesis
      unfolding ee unfolding v solve_pass_newton [OF t]
      by (auto simp only: pass_tail_Return split: if_splits)
  qed
qed

subsection \<open>A returned estimate is not above the root\<close>

lemma residual_strict_mono:
  assumes "0 < x" "x < y" "0 \<le> w"
  shows "residual b w x < residual b w y"
proof -
  have "ln x < ln y" using assms by simp
  moreover have "w * x \<le> w * y" using assms by (intro mult_left_mono) simp_all
  ultimately show ?thesis by (simp add: residual_def)
qed

text \<open>
  Where a Newton step lands: the residual there is not positive, and either the next
  Newton step passes the test of fast convergence, or the step was at least a quarter of
  the new estimate.
\<close>

lemma newton_lands:
  assumes d: "0 < d" and w: "0 \<le> w" and f: "f = residual b w d"
    and d': "d' = d - f / (2 / d + w)" and pos: "0 < d'"
  shows "residual b w d' \<le> 0"
    and "1.9 * \<bar>residual b w d'\<bar> \<le> \<bar>f / (2 / d + w) * (2 / d' + w)\<bar> \<or> d' / 4 \<le> \<bar>f / (2 / d + w)\<bar>"
proof -
  define x where "x = - f / (2 + w * d)"
  have p: "0 < 2 + w * d" using d w by (simp add: add_pos_nonneg)
  have df: "2 / d + w = (2 + w * d) / d" using d by (simp add: field_simps)
  have e: "d' = d * (1 + x)"
    unfolding d' df x_def using d p by (simp add: field_simps)
  have x1: "- 1 < x"
  proof -
    have "0 < 1 + x" using pos d unfolding e by (simp add: zero_less_mult_iff)
    then show ?thesis by simp
  qed
  have lt: "f < 2 + w * d"
  proof -
    have "- x < 1" using x1 by simp
    then have "f / (2 + w * d) < 1" by (simp add: x_def)
    then show ?thesis using p by simp
  qed
  note nr = newton_residual [OF d w f lt, folded x_def]
  have r: "residual b w d' = 2 * ln (1 + x) - 2 * x" unfolding e by (rule nr(3))
  show le: "residual b w d' \<le> 0" unfolding r by (rule ln_gap_nonpos [OF x1])
  have s: "f / (2 / d + w) = - (x * d)"
    unfolding df x_def using d p by (simp add: field_simps)
  have abs_s: "\<bar>f / (2 / d + w)\<bar> = \<bar>x\<bar> * d" unfolding s using d by (simp add: abs_mult)
  have rhs: "\<bar>x\<bar> * (2 / (1 + x)) \<le> \<bar>f / (2 / d + w) * (2 / d' + w)\<bar>"
  proof -
    have "\<bar>x\<bar> * (2 / (1 + x)) = \<bar>x\<bar> * d * (2 / d')"
      unfolding e using d x1 by simp
    also have "\<dots> \<le> \<bar>x\<bar> * d * (2 / d' + w)"
      using d w by (intro mult_left_mono) simp_all
    also have "\<dots> = \<bar>f / (2 / d + w) * (2 / d' + w)\<bar>"
    proof -
      have "0 \<le> 2 / d' + w" using pos w by simp
      then show ?thesis unfolding abs_mult abs_s by simp
    qed
    finally show ?thesis .
  qed
  show "1.9 * \<bar>residual b w d'\<bar> \<le> \<bar>f / (2 / d + w) * (2 / d' + w)\<bar> \<or> d' / 4 \<le> \<bar>f / (2 / d + w)\<bar>"
  proof (cases "0 \<le> x")
    case True
    show ?thesis
    proof (cases "x \<le> 7 / 20")
      case small: True
      have ge: "- 2 * x\<^sup>2 \<le> residual b w d'"
        unfolding r using True small by (intro ln_gap_right) simp_all
      have a1: "\<bar>residual b w d'\<bar> \<le> 2 * x\<^sup>2" using le ge by simp
      have "1.9 * x * (1 + x) \<le> 1.9 * (7 / 20) * (1 + 7 / 20)"
        using True small by (intro mult_mono) simp_all
      then have q: "1.9 * x * (1 + x) \<le> 1" by simp
      have "1.9 * (2 * x\<^sup>2) = (x * (2 / (1 + x))) * (1.9 * x * (1 + x))"
        using True by (simp add: power2_eq_square field_simps)
      also have "\<dots> \<le> (x * (2 / (1 + x))) * 1"
        using True q by (intro mult_left_mono) simp_all
      finally have "1.9 * (2 * x\<^sup>2) \<le> \<bar>x\<bar> * (2 / (1 + x))" using True by simp
      with a1 rhs show ?thesis by linarith
    next
      case False
      then have big: "7 / 20 < x" by simp
      have "d' / 4 = d * (1 + x) / 4" by (simp add: e)
      also have "\<dots> \<le> d * x"
      proof -
        have "(1 + x) / 4 \<le> x" using big by simp
        then have "d * ((1 + x) / 4) \<le> d * x" using d by (intro mult_left_mono) simp_all
        then show ?thesis by simp
      qed
      finally show ?thesis unfolding abs_s using True by (simp add: mult.commute)
    qed
  next
    case False
    define y where "y = - x"
    have y: "0 < y" "y < 1" using False x1 by (simp_all add: y_def)
    show ?thesis
    proof (cases "y \<le> 1 / 2")
      case small: True
      have ge: "- 4 * y\<^sup>2 \<le> residual b w d'"
        unfolding r using ln_gap_left [of y] y small by (simp add: y_def)
      have a1: "\<bar>residual b w d'\<bar> \<le> 4 * y\<^sup>2" using le ge by simp
      have "y * (1 - y) \<le> 1 / 4"
      proof -
        have "0 \<le> (y - 1 / 2)\<^sup>2" by simp
        then show ?thesis by (simp add: power2_eq_square algebra_simps)
      qed
      then have q: "3.8 * y * (1 - y) \<le> 1" by simp
      have y1: "0 < 1 - y" using y by simp
      have "1.9 * (4 * y\<^sup>2) = (y * (2 / (1 - y))) * (3.8 * y * (1 - y))"
        using y1 by (simp add: power2_eq_square field_simps)
      also have "\<dots> \<le> (y * (2 / (1 - y))) * 1"
        using y y1 q by (intro mult_left_mono) simp_all
      finally have "1.9 * (4 * y\<^sup>2) \<le> \<bar>x\<bar> * (2 / (1 + x))" using y by (simp add: y_def)
      with a1 rhs show ?thesis by linarith
    next
      case False
      then have big: "1 / 2 < y" by simp
      have "d' / 4 = d * (1 - y) / 4" by (simp add: e y_def)
      also have "\<dots> \<le> d * y"
      proof -
        have "(1 - y) / 4 \<le> y" using big by simp
        then have "d * ((1 - y) / 4) \<le> d * y" using d by (intro mult_left_mono) simp_all
        then show ?thesis by simp
      qed
      finally show ?thesis unfolding abs_s using y by (simp add: y_def mult.commute)
    qed
  qed
qed

lemma settled_pass:
  assumes b: "0 < b" and w: "0 < w" and rho: "0 < \<rho>" "residual b w \<rho> \<le> 0"
    and eps: "EPSILON * 2 ^ 19 \<le> \<rho> / 9" and n: "n < 19"
    and s: "settled b w (\<rho> / 9) n vars"
  shows "case solve_pass w (- 2 * ln b + w * b) vars of
           Return r \<Rightarrow> 0 < r \<and> residual b w r \<le> 0
         | Continue vars' \<Rightarrow> settled b w (\<rho> / 9) (Suc n) vars'"
proof -
  obtain d_lo d_hi d last_delta f last_f
    where v: "vars = (d_lo, d_hi, d, last_delta, f, last_f)"
    by (cases vars) auto
  from s have "0 \<le> d_lo \<and> d_lo < d_hi \<and> d_hi \<le> b \<and> d_lo \<le> d \<and> d \<le> d_hi \<and> 0 < d
        \<and> f = residual b w d \<and> 0 < residual b w d_hi
        \<and> (last_f = None \<or> (last_f = Some f \<and> (d = d_lo \<or> d = d_hi)))
        \<and> ((d = d_lo \<and> f < 0
              \<and> (1.9 * \<bar>f\<bar> \<le> \<bar>last_delta * (2 / d + w)\<bar> \<or> d / 4 \<le> \<bar>last_delta\<bar>))
            \<or> (\<rho> / 9) / 2 ^ n \<le> d_hi - d_lo)"
    unfolding settled_def v prod.case .
  then have lo: "0 \<le> d_lo" and lh: "d_lo < d_hi" and hb: "d_hi \<le> b" and ld: "d_lo \<le> d"
    and dh: "d \<le> d_hi" and d: "0 < d" and f: "f = residual b w d"
    and rh: "0 < residual b w d_hi"
    and lf: "last_f = None \<or> (last_f = Some f \<and> (d = d_lo \<or> d = d_hi))"
    and wd: "(d = d_lo \<and> f < 0
              \<and> (1.9 * \<bar>f\<bar> \<le> \<bar>last_delta * (2 / d + w)\<bar> \<or> d / 4 \<le> \<bar>last_delta\<bar>))
            \<or> (\<rho> / 9) / 2 ^ n \<le> d_hi - d_lo"
    by blast+
  have w0: "0 \<le> w" using w by simp
  have df: "0 < 2 / d + w" using d w0 by (simp add: add_pos_nonneg)
  have rd: "\<And>z. residual b w z = 2 * ln z + w * z + (- 2 * ln b + w * b)"
    by (simp add: residual_def)
  have above: "\<rho> < d_hi"
  proof (rule ccontr)
    assume "\<not> \<rho> < d_hi"
    then have "d_hi \<le> \<rho>" by simp
    moreover have "0 < d_hi" using lo lh by simp
    ultimately have "residual b w d_hi \<le> residual b w \<rho>" using w0 by (intro residual_mono)
    with rh rho(2) show False by simp
  qed
  show ?thesis
  proof (cases "takes_bisection w vars")
    case True
    then have t: "takes_bisection w (d_lo, d_hi, d, last_delta, f, last_f)" by (simp add: v)
    define delta where "delta = (d_hi - d_lo) / 2"
    define m where "m = d_lo + delta"
    have m: "d_lo < m" "m < d_hi" using lh by (simp_all add: m_def delta_def field_simps)
    have mpos: "0 < m" using lo m by simp
    have wide: "\<rho> / 9 / 2 ^ n \<le> d_hi - d_lo"
    proof (rule disjE [OF wd])
      assume "\<rho> / 9 / 2 ^ n \<le> d_hi - d_lo"
      then show ?thesis .
    next
      assume a: "d = d_lo \<and> f < 0
              \<and> (1.9 * \<bar>f\<bar> \<le> \<bar>last_delta * (2 / d + w)\<bar> \<or> d / 4 \<le> \<bar>last_delta\<bar>)"
      then have dlo: "d = d_lo" and neg: "f < 0" by simp_all
      define d' where "d' = d - f / (2 / d + w)"
      have "f / (2 / d + w) < 0" using neg df by (rule divide_neg_pos)
      then have dd': "d < d'" by (simp add: d'_def)
      then have d'pos: "0 < d'" using d by simp
      have r'le: "residual b w d' \<le> 0"
        by (rule newton_lands(1) [OF d w0 f d'_def d'pos])
      have d'hi: "d' < d_hi"
      proof (rule ccontr)
        assume "\<not> d' < d_hi"
        then have "d_hi \<le> d'" by simp
        moreover have "0 < d_hi" using lo lh by simp
        ultimately have "residual b w d_hi \<le> residual b w d'" using w0 by (intro residual_mono)
        with rh r'le show False by simp
      qed
      have slow: "\<not> 1.9 * \<bar>f\<bar> \<le> \<bar>last_delta * (2 / d + w)\<bar>"
      proof
        assume fast: "1.9 * \<bar>f\<bar> \<le> \<bar>last_delta * (2 / d + w)\<bar>"
        have "\<not> takes_bisection w (d_lo, d_hi, d, last_delta, f, last_f)"
          by (rule not_takes_bisection [OF df _ _ fast])
             (use dd' d'hi dlo in \<open>simp_all add: d'_def\<close>)
        with t show False by simp
      qed
      with a have q: "d / 4 \<le> \<bar>last_delta\<bar>" by blast
      have "\<bar>last_delta * (2 / d + w)\<bar> = \<bar>last_delta\<bar> * (2 / d + w)"
        using df by (simp add: abs_mult)
      with slow have "\<bar>last_delta\<bar> * (2 / d + w) < 1.9 * \<bar>f\<bar>" by simp
      then have "\<bar>last_delta\<bar> < 1.9 * (\<bar>f\<bar> / (2 / d + w))"
        using df by (simp add: field_simps)
      moreover have "\<bar>f\<bar> / (2 / d + w) = d' - d" using neg by (simp add: d'_def)
      ultimately have "\<bar>last_delta\<bar> < 1.9 * (d' - d)" by (simp only:)
      with q have "d / 4 < 1.9 * (d' - d)" by simp
      moreover have "d' - d < d_hi - d" using d'hi by simp
      ultimately have 1: "d / 4 < 1.9 * (d_hi - d)" by simp
      have 2: "\<rho> - d < d_hi - d" using above by simp
      have "\<rho> / 9 \<le> d_hi - d" using 1 2 rho(1) by argo
      moreover have "\<rho> / 9 / 2 ^ n \<le> \<rho> / 9"
        using rho(1) by (simp add: field_simps)
      ultimately show ?thesis using dlo by simp
    qed
    have noeps: "\<not> \<bar>delta\<bar> < EPSILON"
    proof -
      have "(2::real) ^ Suc n \<le> 2 ^ 19" using n by (intro power_increasing) simp_all
      then have "\<rho> / 9 / 2 ^ 19 \<le> \<rho> / 9 / 2 ^ Suc n"
        using rho(1) by (intro divide_left_mono) simp_all
      moreover have "EPSILON \<le> \<rho> / 9 / 2 ^ 19" using eps by (simp add: field_simps)
      moreover have "\<rho> / 9 / 2 ^ Suc n \<le> delta" using wide by (simp add: delta_def)
      ultimately show ?thesis by simp
    qed
    have ne: "m \<noteq> d_lo" using m by simp
    have sp: "solve_pass w (- 2 * ln b + w * b) vars
              = pass_tail w (- 2 * ln b + w * b) d_lo d_hi last_f delta m"
      unfolding v solve_pass_bisection [OF t] delta_def [symmetric] m_def [symmetric]
      using ne by (simp only: if_False)
    have nolast: "Some (residual b w m) \<noteq> last_f"
    proof
      assume e: "Some (residual b w m) = last_f"
      with lf have fe: "residual b w m = f" and ends: "d = d_lo \<or> d = d_hi" by auto
      have "m = d"
      proof (rule ccontr)
        assume "m \<noteq> d"
        then consider "m < d" | "d < m" by linarith
        then show False
        proof cases
          case 1
          from residual_strict_mono [OF mpos 1 w0, of b] fe f show False by simp
        next
          case 2
          from residual_strict_mono [OF d 2 w0, of b] fe f show False by simp
        qed
      qed
      with ends m show False by auto
    qed
    from pass_tail_cases [where d' = m and d_lo = d_lo and d_hi = d_hi and last_f = last_f
        and delta = delta, OF rd]
    show ?thesis
    proof (elim disjE conjE)
      assume "pass_tail w (- 2 * ln b + w * b) d_lo d_hi last_f delta m = Return m"
      then have "residual b w m = 0"
        using noeps nolast unfolding pass_tail_def Let_def rd [symmetric]
        by (simp split: if_splits)
      then show ?thesis using sp \<open>pass_tail w (- 2 * ln b + w * b) d_lo d_hi last_f delta m = Return m\<close> mpos
        by simp
    next
      assume neg: "residual b w m < 0"
        and pt: "pass_tail w (- 2 * ln b + w * b) d_lo d_hi last_f delta m
                 = Continue (m, d_hi, m, delta, residual b w m, Some (residual b w m))"
      have "\<rho> / 9 / 2 ^ Suc n \<le> d_hi - m"
        using wide by (simp add: m_def delta_def field_simps)
      then have "settled b w (\<rho> / 9) (Suc n)
                   (m, d_hi, m, delta, residual b w m, Some (residual b w m))"
        unfolding settled_def prod.case using m mpos hb rh by simp
      then show ?thesis using sp pt by simp
    next
      assume posr: "0 < residual b w m"
        and pt: "pass_tail w (- 2 * ln b + w * b) d_lo d_hi last_f delta m
                 = Continue (d_lo, m, m, delta, residual b w m, Some (residual b w m))"
      have "\<rho> / 9 / 2 ^ Suc n \<le> m - d_lo"
        using wide by (simp add: m_def delta_def field_simps)
      moreover have "m \<le> b" using m hb by simp
      ultimately have "settled b w (\<rho> / 9) (Suc n)
                   (d_lo, m, m, delta, residual b w m, Some (residual b w m))"
        unfolding settled_def prod.case using m mpos lo posr by simp
      then show ?thesis using sp pt by simp
    qed
  next
    case False
    then have t: "\<not> takes_bisection w (d_lo, d_hi, d, last_delta, f, last_f)" by (simp add: v)
    define d' where "d' = d - f / (2 / d + w)"
    have "\<not> ((d - d_hi) * (2 / d + w) - f) * ((d - d_lo) * (2 / d + w) - f) \<ge> 0"
      using t by (simp add: takes_bisection_def)
    from newton_inside [OF df lh this]
    have in': "d_lo < d'" "d' < d_hi" by (simp_all add: d'_def)
    have d'pos: "0 < d'" using lo in' by simp
    note nl = newton_lands [OF d w0 f d'_def d'pos]
    have sp: "solve_pass w (- 2 * ln b + w * b) vars
              = (if d' = d then Return d'
                 else pass_tail w (- 2 * ln b + w * b) d_lo d_hi last_f (f / (2 / d + w)) d')"
      unfolding v solve_pass_newton [OF t] d'_def [symmetric] ..
    show ?thesis
    proof (cases "d' = d")
      case True
      then show ?thesis using sp d'pos nl(1) by simp
    next
      case ne: False
      from pass_tail_cases [where d' = d' and d_lo = d_lo and d_hi = d_hi and last_f = last_f
          and delta = "f / (2 / d + w)", OF rd]
      show ?thesis
      proof (elim disjE conjE)
        assume "pass_tail w (- 2 * ln b + w * b) d_lo d_hi last_f (f / (2 / d + w)) d' = Return d'"
        then show ?thesis using sp ne d'pos nl(1) by simp
      next
        assume neg: "residual b w d' < 0"
          and pt: "pass_tail w (- 2 * ln b + w * b) d_lo d_hi last_f (f / (2 / d + w)) d'
                 = Continue (d', d_hi, d', f / (2 / d + w), residual b w d', Some (residual b w d'))"
        have "settled b w (\<rho> / 9) (Suc n)
                (d', d_hi, d', f / (2 / d + w), residual b w d', Some (residual b w d'))"
          unfolding settled_def prod.case using in' d'pos hb rh neg nl(2) by auto
        then show ?thesis using sp ne pt by simp
      next
        assume "0 < residual b w d'"
        with nl(1) show ?thesis by simp
      qed
    qed
  qed
qed

lemma settled_passes:
  assumes b: "0 < b" and w: "0 < w" and rho: "0 < \<rho>" "residual b w \<rho> \<le> 0"
    and eps: "EPSILON * 2 ^ 19 \<le> \<rho> / 9"
  shows "settled b w (\<rho> / 9) n vars \<Longrightarrow> n + k \<le> 19 \<Longrightarrow>
         (case passes k w (- 2 * ln b + w * b) vars of
            Return r \<Rightarrow> 0 < r \<and> residual b w r \<le> 0
          | Continue vars' \<Rightarrow> settled b w (\<rho> / 9) (n + k) vars')"
proof (induction k arbitrary: n vars)
  case 0
  then show ?case by simp
next
  case (Suc k)
  from Suc.prems(2) have n: "n < 19" and le: "Suc n + k \<le> 19" by simp_all
  from settled_pass [OF b w rho eps n Suc.prems(1)]
  show ?case
  proof (cases "solve_pass w (- 2 * ln b + w * b) vars")
    case (Return r)
    with settled_pass [OF b w rho eps n Suc.prems(1)] show ?thesis by simp
  next
    case (Continue vars')
    with settled_pass [OF b w rho eps n Suc.prems(1)]
    have "settled b w (\<rho> / 9) (Suc n) vars'" by simp
    from Suc.IH [OF this le] have "case passes k w (- 2 * ln b + w * b) vars' of
            Return r \<Rightarrow> 0 < r \<and> residual b w r \<le> 0
          | Continue a \<Rightarrow> settled b w (\<rho> / 9) (n + Suc k) a"
      by (simp only: add_Suc_shift)
    with Continue show ?thesis by (simp only: passes.simps pass.case)
  qed
qed

lemma settled_start:
  assumes "0 < b" "0 < w" "\<rho> / 9 \<le> b"
  shows "settled b w (\<rho> / 9) 0 (start_vars b w)"
proof -
  have "residual b w b = 2 * (w * b)" by (simp add: residual_def)
  then have "0 < residual b w b" using assms by simp
  then show ?thesis
    unfolding settled_def start_vars_def prod.case using assms
    by (simp add: residual_def)
qed

lemma solve_residual:
  assumes b: "0 < b" and w: "0 < w" and rho: "0 < \<rho>" "residual b w \<rho> \<le> 0"
    and eps: "EPSILON * 2 ^ 19 \<le> \<rho> / 9" and le: "\<rho> / 9 \<le> b"
    and s: "solve b w = Inr r"
  shows "residual b w r \<le> 0"
proof -
  from w have w0: "w \<noteq> 0" by simp
  from settled_passes [OF b w rho eps settled_start [OF b w le], of 19] s
  show ?thesis
    unfolding solve_passes [OF w0] by (simp split: pass.splits)
qed

text \<open>The call that the constructor makes, for a decade width below M.\<close>

lemma ln_8_le: "ln (8::real) \<le> ln (M * LN_10)"
proof -
  have "(8::real) \<le> M * LN_10" using wide_b(1) by simp
  then show ?thesis by simp
qed

lemma constructor_rho:
  assumes "0 < w" "w < 1"
  shows "residual (M * LN_10) w (1 / 50) \<le> 0"
proof -
  define v where "v = ln (5 / 4 :: real)"
  define e where "e = ln (128 / 125 :: real)"
  have v: "1 / 5 \<le> v" "v \<le> 1 / 4" and e: "0 \<le> e" "e \<le> 3 / 125"
    using ln_5_4 ln_128_125 by (simp_all only: v_def e_def)
  have l2: "ln (2::real) = 3 * v + e" by (simp only: ln_2_split v_def e_def)
  have l10: "ln (10::real) = 10 * v + 3 * e" by (simp only: ln_10_split v_def e_def)
  have m: "M * LN_10 = 45 * v + 27 / 2 * e"
    by (simp add: M_def LN_10_def l10)
  have l8: "ln (8::real) = 9 * v + 3 * e"
  proof -
    have "ln ((2::real) ^ 3) = 3 * ln 2" using ln_realpow [of "2::real" 3] by (simp only: of_nat_numeral)
    then show ?thesis by (simp add: l2)
  qed
  have l50: "ln (1 / 50 :: real) = - (17 * v + 5 * e)"
  proof -
    have "ln (1 / 50 :: real) = ln (2 / 10 ^ 2)" by simp
    also have "\<dots> = ln 2 - ln ((10::real) ^ 2)" by (rule ln_divide_pos) simp_all
    also have "ln ((10::real) ^ 2) = 2 * ln 10" using ln_realpow [of "10::real" 2] by (simp only: of_nat_numeral)
    finally show ?thesis by (simp add: l2 l10)
  qed
  have lb: "9 * v + 3 * e \<le> ln (M * LN_10)" using ln_8_le by (simp only: l8)
  have "w * (1 / 50 + (45 * v + 27 / 2 * e)) \<le> 1 * (1 / 50 + (45 * v + 27 / 2 * e))"
    using assms v e by (intro mult_right_mono) simp_all
  then have wb: "w * (1 / 50) + w * (M * LN_10) \<le> 1 / 50 + (45 * v + 27 / 2 * e)"
    unfolding m by (simp only: distrib_left mult_1)
  define q1 where "q1 = w * (1 / 50)"
  define q2 where "q2 = w * (M * LN_10)"
  define L where "L = ln (M * LN_10)"
  have "residual (M * LN_10) w (1 / 50) = 2 * ln (1 / 50) + q1 + (- 2 * L + q2)"
    by (simp only: residual_def q1_def q2_def L_def)
  also have "\<dots> \<le> 0"
    unfolding l50 using lb wb v e unfolding q1_def [symmetric] q2_def [symmetric] L_def [symmetric]
    by argo
  finally show ?thesis .
qed

lemma constructor_residual:
  assumes w: "0 \<le> w" "w < 1" and s: "solve (M * LN_10) w = Inr d"
  shows "residual (M * LN_10) w d \<le> 0"
proof (cases "w = 0")
  case True
  with s have "d = M * LN_10" by (simp add: solve_def)
  then show ?thesis using True by (simp add: residual_def)
next
  case False
  with w have w0: "0 < w" by simp
  show ?thesis
  proof (rule solve_residual [OF wide_b(3) w0 _ constructor_rho [OF w0 w(2)] _ _ s])
    show "EPSILON * 2 ^ 19 \<le> 1 / 50 / 9" by (simp add: EPSILON_def)
    show "1 / 50 / 9 \<le> M * LN_10" using wide_b(1) by simp
  qed simp
qed

section \<open>The constructor, the closed form and the cache\<close>

lemma inverse_fn_cong:
  assumes "m_a t = m_a t'" "m_b t = m_b t'" "m_c t = m_c t'" "m_d t = m_d t'" "m_f t = m_f t'"
    "m_x1 t = m_x1 t'" "m_xTaylor t = m_xTaylor t'" "m_taylor t = m_taylor t'"
  shows "inverse_fn t s = inverse_fn t' s"
  unfolding inverse_fn_def seriesBiexponential_def assms ..

lemma coefficients_fields:
  "m_b (coefficients rValue linearMax W b d) = b"
  "m_d (coefficients rValue linearMax W b d) = d"
  "m_x1 (coefficients rValue linearMax W b d) = W / M"
  "m_xTaylor (coefficients rValue linearMax W b d) = W / M + W / M / 4"
  "m_W (coefficients rValue linearMax W b d) = W"
  "m_T (coefficients rValue linearMax W b d) = linearMax"
  "m_rValue (coefficients rValue linearMax W b d) = (if rValue < 0 then \<bar>rValue\<bar> else 0.001)"
  "min_lin (coefficients rValue linearMax W b d) = 0"
  "max_lin (coefficients rValue linearMax W b d) = 0"
  "m_a (coefficients rValue linearMax W b d)
     = linearMax / (branch b d (W / M) 1 - branch b d (W / M) (W / M))"
  by (simp_all add: coefficients_def Let_def branch_def)

lemma coefficients_c:
  "m_c (coefficients rValue linearMax W b d)
     = exp (2 * (W / M) * (b + d)) * m_a (coefficients rValue linearMax W b d)"
  by (simp add: coefficients_def Let_def)

lemma coefficients_f:
  "m_f (coefficients rValue linearMax W b d)
     = - (branch b d (W / M) (W / M)) * m_a (coefficients rValue linearMax W b d)"
  unfolding coefficients_def Let_def branch_def Transform.simps by simp

lemma assemble_coefficients:
  "m_a (assemble rValue linearMax W b d) = m_a (coefficients rValue linearMax W b d)"
  "m_b (assemble rValue linearMax W b d) = m_b (coefficients rValue linearMax W b d)"
  "m_c (assemble rValue linearMax W b d) = m_c (coefficients rValue linearMax W b d)"
  "m_d (assemble rValue linearMax W b d) = m_d (coefficients rValue linearMax W b d)"
  "m_f (assemble rValue linearMax W b d) = m_f (coefficients rValue linearMax W b d)"
  "m_x1 (assemble rValue linearMax W b d) = m_x1 (coefficients rValue linearMax W b d)"
  "m_xTaylor (assemble rValue linearMax W b d) = m_xTaylor (coefficients rValue linearMax W b d)"
  "m_taylor (assemble rValue linearMax W b d) = m_taylor (coefficients rValue linearMax W b d)"
  "m_W (assemble rValue linearMax W b d) = m_W (coefficients rValue linearMax W b d)"
  "m_T (assemble rValue linearMax W b d) = m_T (coefficients rValue linearMax W b d)"
  "m_rValue (assemble rValue linearMax W b d) = m_rValue (coefficients rValue linearMax W b d)"
  by (simp_all add: assemble_def Let_def)

lemma assemble_inverse:
  "inverse_fn (assemble rValue linearMax W b d) s
   = inverse_fn (coefficients rValue linearMax W b d) s"
  by (rule inverse_fn_cong) (simp_all only: assemble_coefficients)

lemma assemble_lookup:
  "m_lookup (assemble rValue linearMax W b d)
   = map (\<lambda>i. inverse_fn (assemble rValue linearMax W b d) ((real i * 1.0) / real bins)) [0..<bins + 1]"
  unfolding assemble_inverse by (simp add: assemble_def Let_def)

lemma assemble_rest:
  "m_resolution (assemble rValue linearMax W b d) = M / real bins"
  "scale (assemble rValue linearMax W b d) = Biexponential"
  "max_lin (assemble rValue linearMax W b d) = (if rValue < 0 then linearMax else 0)"
  "min_lin (assemble rValue linearMax W b d)
   = (if rValue < 0 then m_lookup (assemble rValue linearMax W b d) ! 0 else 0)"
  by (simp_all add: assemble_def Let_def coefficients_fields)

lemma new_BiexponentialTranslator_alt:
  "new_BiexponentialTranslator rValue linearMax =
     (case solve (M * LN_10) (decade_width rValue linearMax / M) of
        Inl e \<Rightarrow> Inl e
      | Inr d \<Rightarrow> Inr (assemble rValue linearMax (decade_width rValue linearMax) (M * LN_10) d))"
  by (simp only: new_BiexponentialTranslator_def decade_width_def Let_def)

lemma decade_width_nonneg: "0 \<le> decade_width rValue linearMax"
  by (simp add: decade_width_def Let_def)

lemma M_LN_10_pos: "0 < M * LN_10"
  by (simp add: M_def LN_10_def)

lemma new_BiexponentialTranslator_Inr:
  assumes "new_BiexponentialTranslator rValue linearMax = Inr t"
  shows "\<exists>d. solve (M * LN_10) (decade_width rValue linearMax / M) = Inr d
             \<and> t = assemble rValue linearMax (decade_width rValue linearMax) (M * LN_10) d
             \<and> 0 < d \<and> d \<le> M * LN_10"
proof -
  from assms obtain d
    where s: "solve (M * LN_10) (decade_width rValue linearMax / M) = Inr d"
      and t: "t = assemble rValue linearMax (decade_width rValue linearMax) (M * LN_10) d"
    by (auto simp: new_BiexponentialTranslator_alt split: sum.splits)
  have w: "0 \<le> decade_width rValue linearMax / M"
    using decade_width_nonneg [of rValue linearMax] by (simp add: M_def)
  have "0 < d \<and> d \<le> M * LN_10"
  proof (cases "decade_width rValue linearMax / M = 0")
    case True
    then show ?thesis using s M_LN_10_pos by (simp add: solve_def)
  next
    case False
    with w have "0 < decade_width rValue linearMax / M" by (metis less_eq_real_def)
    from solve_result_range [OF M_LN_10_pos this s] show ?thesis by simp
  qed
  with s t show ?thesis by blast
qed

lemma constructor_sign:
  assumes "new_BiexponentialTranslator rValue linearMax = Inr t"
  shows "(rValue < 0 \<longrightarrow> m_rValue t = \<bar>rValue\<bar> \<and> max_lin t = linearMax \<and> min_lin t = m_lookup t ! 0)
       \<and> (\<not> rValue < 0 \<longrightarrow> m_rValue t = 0.001 \<and> max_lin t = 0 \<and> min_lin t = 0)"
proof -
  from new_BiexponentialTranslator_Inr [OF assms] obtain d
    where t: "t = assemble rValue linearMax (decade_width rValue linearMax) (M * LN_10) d"
    by blast
  show ?thesis
    unfolding t by (simp add: assemble_rest assemble_coefficients coefficients_fields)
qed

lemma translateToLinear_total:
  assumes "m_resolution t = M / real bins"
  shows "\<exists>y. translateToLinear t scaledValue = Inr y"
proof -
  define sv where "sv = (if scaledValue < 0 then 0 else if scaledValue > 4.5 then 4.5 else scaledValue)"
  have sv: "0 \<le> sv" "sv \<le> 4.5" by (simp_all add: sv_def)
  define x where "x = sv / m_resolution t"
  have x: "x = sv * 2048 / 9" by (simp add: x_def assms M_def bins_def)
  have "0 \<le> x" "x \<le> 1024" using sv by (simp_all add: x)
  then have "0 \<le> \<lfloor>x\<rfloor>" "\<lfloor>x\<rfloor> \<le> 1024" by (simp_all add: floor_le_iff le_floor_iff)
  then have "\<not> (\<lfloor>x\<rfloor> < 0 \<or> \<lfloor>x\<rfloor> > int bins)" by (simp add: bins_def)
  then show ?thesis
    unfolding translateToLinear_def Let_def sv_def [symmetric] x_def [symmetric] by simp
qed

lemma translateFromLinear_low:
  "linearValue \<le> m_lookup t ! 0 \<Longrightarrow> translateFromLinear t linearValue = 0"
  by (simp add: translateFromLinear_def)

lemma translateFromLinear_high:
  "m_lookup t ! 0 < linearValue \<Longrightarrow> m_lookup t ! (bins - 1) < linearValue \<Longrightarrow>
   translateFromLinear t linearValue = M"
  by (simp add: translateFromLinear_def)

lemma lookup_entries:
  assumes "new_BiexponentialTranslator rValue linearMax = Inr t"
  shows "length (m_lookup t) = bins + 1" and "bins + 1 = 1025"
    and "i \<le> bins \<Longrightarrow> m_lookup t ! i = inverse_fn t (real i / real bins)"
proof -
  from new_BiexponentialTranslator_Inr [OF assms] obtain d
    where t: "t = assemble rValue linearMax (decade_width rValue linearMax) (M * LN_10) d"
    by blast
  have l: "m_lookup t = map (\<lambda>i. inverse_fn t ((real i * 1.0) / real bins)) [0..<bins + 1]"
    unfolding t by (rule assemble_lookup)
  show "length (m_lookup t) = bins + 1" by (subst l) simp
  show "bins + 1 = 1025" by (simp add: bins_def)
  assume "i \<le> bins"
  then have "i < bins + 1" by simp
  then show "m_lookup t ! i = inverse_fn t (real i / real bins)"
    by (subst l) (simp del: upt_Suc add: nth_map_upt)
qed

lemma closed_form_coefficients:
  "closed_form (coefficients rValue linearMax W b d) s
   = m_a (coefficients rValue linearMax W b d) * (branch b d (W / M) s - branch b d (W / M) (W / M))"
  unfolding closed_form_def coefficients_c coefficients_f
  by (simp add: coefficients_fields(1,2) branch_def algebra_simps)

lemma closed_form_assemble:
  "closed_form (assemble rValue linearMax W b d) s
   = m_a (coefficients rValue linearMax W b d) * (branch b d (W / M) s - branch b d (W / M) (W / M))"
  unfolding closed_form_coefficients [symmetric]
  by (simp add: closed_form_def assemble_coefficients)

lemma branch_strict_mono:
  assumes "0 < b" "0 < d" "s1 < s2"
  shows "branch b d w s1 < branch b d w s2"
proof -
  have 1: "exp (b * s1) < exp (b * s2)" using assms by simp
  have "exp (d * s1) \<le> exp (d * s2)" using assms by simp
  then have 2: "exp (2 * w * (b + d)) / exp (d * s2) \<le> exp (2 * w * (b + d)) / exp (d * s1)"
    by (intro divide_left_mono) simp_all
  from 1 2 show ?thesis unfolding branch_def by linarith
qed

lemma inverse_fn_closed:
  "m_x1 t \<le> s \<Longrightarrow> m_xTaylor t \<le> s \<Longrightarrow> inverse_fn t s = closed_form t s"
  by (simp add: inverse_fn_def closed_form_def)

lemma inverse_fn_reflected:
  "s < m_x1 t \<Longrightarrow> m_xTaylor t \<le> 2 * m_x1 t - s \<Longrightarrow>
   inverse_fn t s = - closed_form t (2 * m_x1 t - s)"
  by (simp add: inverse_fn_def closed_form_def Let_def)

text \<open>The sign of a.\<close>

lemma coefficient_a_pos:
  assumes "0 < linearMax" "0 < b" "0 < d" "W / M < 1"
  shows "0 < m_a (coefficients rValue linearMax W b d)"
  using branch_strict_mono [OF assms(2,3,4), of "W / M"] assms(1)
  by (simp add: coefficients_fields)

lemma coefficient_a_neg:
  assumes "0 < linearMax" "0 < b" "0 < d" "1 < W / M"
  shows "m_a (coefficients rValue linearMax W b d) < 0"
  using branch_strict_mono [OF assms(2,3,4), of "W / M"] assms(1)
  by (simp add: coefficients_fields divide_pos_neg)



text \<open>Reflected values of a transform whose a is negative fall.\<close>

lemma reflected_falls:
  assumes t: "t = assemble rValue linearMax W b d"
    and "0 < linearMax" "0 < b" "0 < d" "1 < W / M"
    and "s1 < s2" "s2 < W / M" "W / M + W / M / 4 \<le> 2 * (W / M) - s2"
  shows "inverse_fn t s2 < inverse_fn t s1"
proof -
  have x1: "m_x1 t = W / M" and xT: "m_xTaylor t = W / M + W / M / 4"
    by (simp_all add: t assemble_coefficients coefficients_fields)
  have a: "m_a (coefficients rValue linearMax W b d) < 0"
    by (rule coefficient_a_neg) fact+
  have i1: "inverse_fn t s1 = - closed_form t (2 * (W / M) - s1)"
    using inverse_fn_reflected [of s1 t] assms(6-8) unfolding x1 xT by simp
  have i2: "inverse_fn t s2 = - closed_form t (2 * (W / M) - s2)"
    using inverse_fn_reflected [of s2 t] assms(6-8) unfolding x1 xT by simp
  have "branch b d (W / M) (2 * (W / M) - s2) < branch b d (W / M) (2 * (W / M) - s1)"
    using assms by (intro branch_strict_mono) simp_all
  then have "m_a (coefficients rValue linearMax W b d)
               * (branch b d (W / M) (2 * (W / M) - s1) - branch b d (W / M) (W / M))
             < m_a (coefficients rValue linearMax W b d)
               * (branch b d (W / M) (2 * (W / M) - s2) - branch b d (W / M) (W / M))"
    using a by (simp add: mult_less_cancel_left)
  then show ?thesis
    unfolding i1 i2 unfolding t closed_form_assemble by simp
qed

lemma log10_pow: "log 10 ((10::real) ^ n) = real n"
  by (rule log_pow_cancel) simp_all

lemma decade_width_narrow: "decade_width (- 100000000) 1 = 25 / 4"
proof -
  have "log 10 (1 / (10::real) ^ 8) = log 10 1 - log 10 (10 ^ 8)"
    by (rule log_divide_pos) simp_all
  also have "\<dots> = - 8" unfolding log10_pow by simp
  finally have "log 10 (1 / 100000000 :: real) = - 8" by simp
  then show ?thesis by (simp add: decade_width_def Let_def M_def)
qed

lemma decade_width_default:
  assumes "\<not> rValue < 0"
  shows "decade_width rValue 1000 = 0"
proof -
  have "log 10 ((10::real) ^ 6) = 6" unfolding log10_pow by simp
  then have "log 10 (1000000 :: real) = 6" by simp
  then show ?thesis using assms by (simp add: decade_width_def Let_def M_def)
qed

lemma new_default:
  assumes "\<not> rValue < 0"
  shows "new_BiexponentialTranslator rValue 1000 = Inr (assemble rValue 1000 0 (M * LN_10) (M * LN_10))"
  by (simp add: new_BiexponentialTranslator_alt decade_width_default [OF assms] solve_def)

lemma new_narrow:
  "\<exists>d. new_BiexponentialTranslator (- 100000000) 1 = Inr (assemble (- 100000000) 1 (25 / 4) (M * LN_10) d)
       \<and> 0 < d \<and> d < M * LN_10"
proof -
  have w: "(25 / 4) / M = 25 / 18" by (simp add: M_def)
  from wide_solve obtain d where "solve (M * LN_10) (25 / 18) = Inr d" "0 < d" "d < M * LN_10"
    by blast
  then show ?thesis
    unfolding new_BiexponentialTranslator_alt decade_width_narrow w by auto
qed



lemma cache_ok_empty: "cache_ok empty_cache"
  by (simp add: cache_ok_def empty_cache_def)

lemma construct_hit:
  "translators st (rValue, linearMax) = Some r \<Longrightarrow>
   constructBiExponentialTranslator rValue linearMax st = Inr (r, st)"
  by (simp add: constructBiExponentialTranslator_def)

lemma construct_miss:
  "translators st (rValue, linearMax) = None \<Longrightarrow>
   constructBiExponentialTranslator rValue linearMax st =
     (case new_BiexponentialTranslator rValue linearMax of
        Inl e \<Rightarrow> Inl e
      | Inr t \<Rightarrow> Inr (length (objects st),
                  st \<lparr> objects := objects st @ [t],
                       translators := (translators st)((rValue, linearMax) \<mapsto> length (objects st)) \<rparr>))"
  by (simp add: constructBiExponentialTranslator_def Let_def split: sum.splits)

lemma construct_result:
  assumes "constructBiExponentialTranslator rValue linearMax st = Inr (r, st')"
  shows "translators st' (rValue, linearMax) = Some r"
    and "\<And>k r'. translators st k = Some r' \<Longrightarrow> translators st' k = Some r'"
    and "cache_ok st \<Longrightarrow> cache_ok st'"
    and "\<And>r'. r' < length (objects st) \<Longrightarrow> r' < length (objects st') \<and> objects st' ! r' = objects st ! r'"
    and "translators st (rValue, linearMax) = None \<Longrightarrow>
         new_BiexponentialTranslator rValue linearMax = Inr (objects st' ! r)
         \<and> length (objects st') = Suc (length (objects st)) \<and> r = length (objects st)"
    and "translators st (rValue, linearMax) \<noteq> None \<Longrightarrow> st' = st"
proof -
  show "translators st' (rValue, linearMax) = Some r"
    using assms by (cases "translators st (rValue, linearMax)")
      (auto simp: construct_hit construct_miss split: sum.splits)
  show "\<And>k r'. translators st k = Some r' \<Longrightarrow> translators st' k = Some r'"
    using assms by (cases "translators st (rValue, linearMax)")
      (auto simp: construct_hit construct_miss split: sum.splits)
  show "cache_ok st \<Longrightarrow> cache_ok st'"
  proof (cases "translators st (rValue, linearMax)")
    case (Some r0)
    assume "cache_ok st"
    then show ?thesis using assms Some by (simp add: construct_hit)
  next
    case None
    assume ok: "cache_ok st"
    from assms None obtain t
      where st': "st' = st \<lparr> objects := objects st @ [t],
                 translators := (translators st)((rValue, linearMax) \<mapsto> length (objects st)) \<rparr>"
      by (auto simp: construct_miss split: sum.splits)
    from ok have lt: "\<And>k r. translators st k = Some r \<Longrightarrow> r < length (objects st)"
      and inj: "\<And>k k' r. translators st k = Some r \<Longrightarrow> translators st k' = Some r \<Longrightarrow> k = k'"
      unfolding cache_ok_def by blast+
    show ?thesis
      unfolding cache_ok_def
    proof (intro conjI allI impI)
      fix k r assume "translators st' k = Some r"
      then show "r < length (objects st')"
        using lt [of k r] by (auto simp: st' less_Suc_eq split: if_splits)
    next
      fix k k' r assume "translators st' k = Some r" "translators st' k' = Some r"
      then show "k = k'"
        using lt [of k r] lt [of k' r] inj [of k r k']
        by (auto simp: st' split: if_splits)
    qed
  qed
  show "\<And>r'. r' < length (objects st) \<Longrightarrow> r' < length (objects st') \<and> objects st' ! r' = objects st ! r'"
    using assms by (cases "translators st (rValue, linearMax)")
      (auto simp: construct_hit construct_miss nth_append split: sum.splits)
  show "translators st (rValue, linearMax) = None \<Longrightarrow>
         new_BiexponentialTranslator rValue linearMax = Inr (objects st' ! r)
         \<and> length (objects st') = Suc (length (objects st)) \<and> r = length (objects st)"
    using assms by (auto simp: construct_miss split: sum.splits)
  show "translators st (rValue, linearMax) \<noteq> None \<Longrightarrow> st' = st"
    using assms by (auto simp: construct_hit)
qed

lemma cache_identity:
  assumes ok: "cache_ok st"
    and c1: "constructBiExponentialTranslator rValue linearMax st = Inr (r1, st1)"
  shows "constructBiExponentialTranslator rValue linearMax st1 = Inr (r1, st1)"
    and "\<And>rValue' linearMax' r2 st2.
          (rValue', linearMax') \<noteq> (rValue, linearMax) \<Longrightarrow>
          constructBiExponentialTranslator rValue' linearMax' st1 = Inr (r2, st2) \<Longrightarrow>
          r2 \<noteq> r1 \<and> constructBiExponentialTranslator rValue linearMax st2 = Inr (r1, st2)"
proof -
  note r = construct_result [OF c1]
  show "constructBiExponentialTranslator rValue linearMax st1 = Inr (r1, st1)"
    by (rule construct_hit [OF r(1)])
  fix rValue' linearMax' r2 st2
  assume ne: "(rValue', linearMax') \<noteq> (rValue, linearMax)"
    and c2: "constructBiExponentialTranslator rValue' linearMax' st1 = Inr (r2, st2)"
  note r' = construct_result [OF c2]
  have ok2: "cache_ok st2" by (rule r'(3) [OF r(3) [OF ok]])
  have k1: "translators st2 (rValue, linearMax) = Some r1" by (rule r'(2) [OF r(1)])
  have k2: "translators st2 (rValue', linearMax') = Some r2" by (rule r'(1))
  have "r2 \<noteq> r1"
  proof
    assume "r2 = r1"
    with k1 k2 ok2 have "(rValue', linearMax') = (rValue, linearMax)"
      unfolding cache_ok_def by blast
    with ne show False by simp
  qed
  then show "r2 \<noteq> r1 \<and> constructBiExponentialTranslator rValue linearMax st2 = Inr (r1, st2)"
    using construct_hit [OF k1] by simp
qed

lemma assemble_x1:
  "m_x1 (assemble rValue linearMax W b d) = W / M"
  "m_xTaylor (assemble rValue linearMax W b d) = W / M + W / M / 4"
  "m_W (assemble rValue linearMax W b d) = W"
  by (simp_all add: assemble_coefficients coefficients_fields)

lemma default_transform:
  "m_x1 (assemble rValue linearMax 0 b d) = 0"
  "m_xTaylor (assemble rValue linearMax 0 b d) = 0"
  by (simp_all add: assemble_x1)

lemma narrow_transform:
  "\<exists>t. new_BiexponentialTranslator (- 100000000) 1 = Inr t
       \<and> (\<forall>s1 s2. s1 < s2 \<and> s2 \<le> 1023 / 1024 \<longrightarrow> inverse_fn t s2 < inverse_fn t s1)"
proof -
  from new_narrow obtain d
    where n: "new_BiexponentialTranslator (- 100000000) 1
              = Inr (assemble (- 100000000) 1 (25 / 4) (M * LN_10) d)"
      and d: "0 < d" by blast
  have w: "(25 / 4) / M = 25 / 18" by (simp add: M_def)
  have "inverse_fn (assemble (- 100000000) 1 (25 / 4) (M * LN_10) d) s2
        < inverse_fn (assemble (- 100000000) 1 (25 / 4) (M * LN_10) d) s1"
    if "s1 < s2" "s2 \<le> 1023 / 1024" for s1 s2
    by (rule reflected_falls [OF refl _ M_LN_10_pos d _ that(1)])
       (use that(2) in \<open>simp_all add: M_def\<close>)
  with n show ?thesis by blast
qed

lemma decade_width_mid: "decade_width (- 1000) 1 = 15 / 4"
proof -
  have "log 10 (1 / (10::real) ^ 3) = log 10 1 - log 10 (10 ^ 3)"
    by (rule log_divide_pos) simp_all
  also have "\<dots> = - 3" unfolding log10_pow by simp
  finally have "log 10 (1 / 1000 :: real) = - 3" by simp
  then show ?thesis by (simp add: decade_width_def Let_def M_def)
qed

lemma mid_transform:
  "\<exists>t. new_BiexponentialTranslator (- 1000) 1 = Inr t
       \<and> m_x1 t = 5 / 6 \<and> m_xTaylor t = 25 / 24 \<and> m_W t = 15 / 4"
proof -
  have w: "(15 / 4) / M = 5 / 6" by (simp add: M_def)
  from mid_solve obtain d where "solve (M * LN_10) (5 / 6) = Inr d" by blast
  then have "new_BiexponentialTranslator (- 1000) 1
             = Inr (assemble (- 1000) 1 (15 / 4) (M * LN_10) d)"
    unfolding new_BiexponentialTranslator_alt decade_width_mid w by simp
  moreover have "m_x1 (assemble (- 1000) 1 (15 / 4) (M * LN_10) d) = 5 / 6"
    "m_xTaylor (assemble (- 1000) 1 (15 / 4) (M * LN_10) d) = 25 / 24"
    "m_W (assemble (- 1000) 1 (15 / 4) (M * LN_10) d) = 15 / 4"
    by (simp_all add: assemble_x1 M_def)
  ultimately show ?thesis by blast
qed



subsection \<open>The Taylor branch\<close>

text \<open>The entries that the loop of the constructor writes into the Taylor table.\<close>

lemma taylor_loop_length: "length (taylor_loop n i b d posCoef negCoef) = n"
  by (induction n arbitrary: i posCoef negCoef) (simp_all add: Let_def)

lemma taylor_loop_nth:
  "k < n \<Longrightarrow>
   taylor_loop n i b d posCoef negCoef ! k
   = posCoef * b ^ (k + 1) * (fact i / fact (i + k + 1))
     + negCoef * (- d) ^ (k + 1) * (fact i / fact (i + k + 1))"
proof (induction n arbitrary: i k posCoef negCoef)
  case 0
  then show ?case by simp
next
  case (Suc n)
  show ?case
  proof (cases k)
    case 0
    have "(fact i :: real) / fact (Suc i) = fact i / (real (Suc i) * fact i)"
      by (simp only: fact_Suc of_nat_mult)
    also have "\<dots> = 1 / real (Suc i)" by simp
    finally have e: "(fact i :: real) / fact (Suc i) = 1 / real (Suc i)" .
    show ?thesis
      unfolding 0 taylor_loop.simps Let_def nth_Cons_0
      by (simp only: add_0_right add_0 One_nat_def add_Suc_right e power_one_right) simp
  next
    case (Suc k')
    with Suc.prems have k': "k' < n" by simp
    define F where "F = (fact (i + k' + 2) :: real)"
    define p where "p = posCoef * (b / real (i + 1))"
    define q where "q = negCoef * (- d / real (i + 1))"
    have idx: "i + 1 + k' + 1 = i + k' + 2" "i + Suc k' + 1 = i + k' + 2" by simp_all
    have fs: "(fact (i + 1) :: real) = real (i + 1) * fact i" by simp
    have ih: "taylor_loop n (i + 1) b d p q ! k'
              = p * b ^ (k' + 1) * (fact (i + 1) / F) + q * (- d) ^ (k' + 1) * (fact (i + 1) / F)"
      unfolding F_def using Suc.IH [OF k', of "i + 1" p q] by (simp only: idx)
    have 1: "p * b ^ (k' + 1) * (fact (i + 1) / F) = posCoef * b ^ (Suc k' + 1) * (fact i / F)"
      unfolding p_def fs by simp
    have 2: "q * (- d) ^ (k' + 1) * (fact (i + 1) / F) = negCoef * (- d) ^ (Suc k' + 1) * (fact i / F)"
      unfolding q_def fs by simp
    have "taylor_loop (Suc n) i b d posCoef negCoef ! k = taylor_loop n (i + 1) b d p q ! k'"
      unfolding Suc taylor_loop.simps Let_def nth_Cons_Suc p_def q_def ..
    also have "\<dots> = posCoef * b ^ (Suc k' + 1) * (fact i / F)
                     + negCoef * (- d) ^ (Suc k' + 1) * (fact i / F)"
      unfolding ih 1 2 ..
    finally show ?thesis unfolding Suc F_def idx .
  qed
qed

text \<open>The Horner loop of seriesBiexponential as a sum.\<close>

lemma horner_sum:
  fixes c :: "nat \<Rightarrow> real"
  shows "m \<le> n \<Longrightarrow>
         foldl (\<lambda>sum i. (sum + c i) * x) a (rev [m..<n])
         = a * x ^ (n - m) + (\<Sum>k = m..<n. c k * x ^ (k - m + 1))"
proof (induction n arbitrary: a)
  case 0
  then show ?case by simp
next
  case (Suc n)
  show ?case
  proof (cases "m = Suc n")
    case True
    then show ?thesis by simp
  next
    case False
    with Suc.prems have le: "m \<le> n" by simp
    have r: "rev [m..<Suc n] = n # rev [m..<n]" using le by simp
    have p: "Suc n - m = Suc (n - m)" using le by simp
    show ?thesis
      unfolding r foldl_Cons Suc.IH [OF le] p
      using le by (simp add: algebra_simps Suc_diff_le)
  qed
qed

lemma exp_sum: "(\<Sum>m<17. u ^ m / fact m) = 1 + u + u\<^sup>2 / 2 + exp_tail (u::real)"
proof -
  have "(\<Sum>m<17. u ^ m / fact m) = (\<Sum>m = 0..<17. u ^ m / fact m)"
    by (simp only: atLeast0LessThan)
  also have "\<dots> = (\<Sum>m = 0..<3. u ^ m / fact m) + (\<Sum>m = 3..<17. u ^ m / fact m)"
    by (rule sum.atLeastLessThan_concat [symmetric]) simp_all
  also have "(\<Sum>m = 0..<3. u ^ m / fact m) = 1 + u + u\<^sup>2 / 2"
    by (simp add: eval_nat_numeral)
  finally show ?thesis by (simp only: exp_tail_def)
qed

lemma exp_tail_lower:
  assumes "0 \<le> u"
  shows "1 + u + u\<^sup>2 / 2 + exp_tail u \<le> exp u"
proof -
  from Maclaurin_exp_le [of u 17] obtain t
    where "exp u = (\<Sum>m<17. u ^ m / fact m) + exp t / fact 17 * u ^ 17" by blast
  moreover have "0 \<le> exp t / fact 17 * u ^ 17" using assms by simp
  ultimately show ?thesis unfolding exp_sum by linarith
qed

lemma exp_tail_upper:
  assumes "0 \<le> v"
  shows "exp (- v) \<le> 1 + (- v) + (- v)\<^sup>2 / 2 + exp_tail (- v)"
proof -
  from Maclaurin_exp_le [of "- v" 17] obtain t
    where e: "exp (- v) = (\<Sum>m<17. (- v) ^ m / fact m) + exp t / fact 17 * (- v) ^ 17" by blast
  have "(- v) ^ 17 = - (v ^ 17)" by (rule power_minus_odd) simp
  then have "exp t / fact 17 * (- v) ^ 17 \<le> 0"
    using assms by (simp add: mult_nonneg_nonpos divide_nonneg_pos)
  with e show ?thesis unfolding exp_sum by linarith
qed

lemma exp_tail_scaled:
  "(\<Sum>k = 2..<16. c * u ^ (k + 1) / fact (k + 1)) = c * exp_tail u"
proof -
  have "(\<Sum>k = 2..<16. c * u ^ (k + 1) / fact (k + 1))
        = (\<Sum>m = 2 + 1..<16 + 1. c * u ^ m / fact m)"
    by (rule sum.shift_bounds_nat_ivl [symmetric])
  also have "\<dots> = c * (\<Sum>m = 3..<17. u ^ m / fact m)"
    by (simp add: sum_distrib_left)
  finally show ?thesis by (simp only: exp_tail_def)
qed

text \<open>seriesBiexponential as a polynomial in x = scale - x1.\<close>

lemma series_poly:
  assumes "length (m_taylor t) = 16"
  shows "seriesBiexponential t s
         = (\<Sum>k = 2..<16. m_taylor t ! k * (s - m_x1 t) ^ (k + 1)) + m_taylor t ! 0 * (s - m_x1 t)"
proof -
  define x where "x = s - m_x1 t"
  define c where "c = (\<lambda>i. m_taylor t ! i)"
  have h: "foldl (\<lambda>sum i. (sum + c i) * x) (c 15 * x) (rev [2..<15])
           = c 15 * x * x ^ (15 - 2) + (\<Sum>k = 2..<15. c k * x ^ (k - 2 + 1))"
    by (rule horner_sum) simp
  have "seriesBiexponential t s
        = (foldl (\<lambda>sum i. (sum + c i) * x) (c 15 * x) (rev [2..<15]) * x + c 0) * x"
    unfolding seriesBiexponential_def Let_def assms x_def c_def by simp
  also have "\<dots> = (c 15 * x ^ 16 + (\<Sum>k = 2..<15. c k * x ^ (k - 2 + 1) * x\<^sup>2)) + c 0 * x"
  proof -
    define S where "S = (\<Sum>k = 2..<15. c k * x ^ (k - 2 + 1))"
    have p: "x * x ^ (15 - 2) * x\<^sup>2 = x ^ 16"
    proof -
      have "x ^ 16 = x ^ (1 + 13 + 2)" by simp
      also have "\<dots> = x * x ^ 13 * x\<^sup>2" by (simp only: power_add power_one_right)
      finally show ?thesis by simp
    qed
    have "((c 15 * x * x ^ (15 - 2) + S) * x + c 0) * x
          = c 15 * (x * x ^ (15 - 2) * x\<^sup>2) + S * x\<^sup>2 + c 0 * x"
      by (simp add: power2_eq_square algebra_simps)
    also have "S * x\<^sup>2 = (\<Sum>k = 2..<15. c k * x ^ (k - 2 + 1) * x\<^sup>2)"
      unfolding S_def by (rule sum_distrib_right)
    finally show ?thesis unfolding h p S_def .
  qed
  also have "(\<Sum>k = 2..<15. c k * x ^ (k - 2 + 1) * x\<^sup>2) = (\<Sum>k = 2..<15. c k * x ^ (k + 1))"
  proof (rule sum.cong)
    fix k assume "k \<in> {2..<15::nat}"
    then have "2 \<le> k" by simp
    then have "k - 2 + 1 + 2 = k + 1" by arith
    then have "x ^ (k - 2 + 1) * x\<^sup>2 = x ^ (k + 1)"
      by (simp only: power_add [symmetric])
    then show "c k * x ^ (k - 2 + 1) * x\<^sup>2 = c k * x ^ (k + 1)" by (simp add: mult.assoc)
  qed simp
  also have "c 15 * x ^ 16 + (\<Sum>k = 2..<15. c k * x ^ (k + 1)) = (\<Sum>k = 2..<16. c k * x ^ (k + 1))"
  proof -
    have "(\<Sum>k = 2..<Suc 15. c k * x ^ (k + 1)) = (\<Sum>k = 2..<15. c k * x ^ (k + 1)) + c 15 * x ^ (15 + 1)"
      by (rule sum.atLeastLessThan_Suc) simp
    then show ?thesis by simp
  qed
  finally show ?thesis unfolding x_def c_def .
qed

lemma coefficients_taylor:
  "m_taylor (coefficients rValue linearMax W b d)
   = (taylor_loop 16 0 b d
        (m_a (coefficients rValue linearMax W b d) * exp (b * (W / M)))
        (- m_c (coefficients rValue linearMax W b d) / exp (d * (W / M))))[1 := 0]"
  by (simp add: coefficients_def Let_def)

lemma coefficients_negCoef:
  "- m_c (coefficients rValue linearMax W b d) / exp (d * (W / M))
   = - (m_a (coefficients rValue linearMax W b d) * exp (b * (W / M)) * exp (W / M * (b + d)))"
proof -
  define w where "w = W / M"
  define a where "a = m_a (coefficients rValue linearMax W b d)"
  have "exp (2 * w * (b + d)) / exp (d * w) = exp (2 * w * (b + d) - d * w)"
    by (simp only: exp_diff)
  also have "2 * w * (b + d) - d * w = b * w + w * (b + d)" by (simp add: algebra_simps)
  also have "exp (b * w + w * (b + d)) = exp (b * w) * exp (w * (b + d))" by (rule exp_add)
  finally have e: "exp (2 * w * (b + d)) / exp (d * w) = exp (b * w) * exp (w * (b + d))" .
  have "exp (2 * w * (b + d)) * a / exp (d * w) = a * (exp (2 * w * (b + d)) / exp (d * w))"
    by simp
  also have "\<dots> = a * exp (b * w) * exp (w * (b + d))" unfolding e by simp
  finally have "exp (2 * w * (b + d)) * a / exp (d * w) = a * exp (b * w) * exp (w * (b + d))" .
  then show ?thesis unfolding coefficients_c w_def a_def by simp
qed

lemma coefficients_taylor_length: "length (m_taylor (coefficients rValue linearMax W b d)) = 16"
  unfolding coefficients_taylor by (simp add: taylor_loop_length)

lemma coefficients_taylor_nth:
  assumes "k < 16"
  shows "m_taylor (coefficients rValue linearMax W b d) ! k
         = (if k = 1 then 0
            else m_a (coefficients rValue linearMax W b d) * exp (b * (W / M))
                 * (b ^ (k + 1) - exp (W / M * (b + d)) * (- d) ^ (k + 1)) / fact (k + 1))"
proof (cases "k = 1")
  case True
  then show ?thesis unfolding coefficients_taylor by (simp add: taylor_loop_length)
next
  case False
  then have "m_taylor (coefficients rValue linearMax W b d) ! k
        = taylor_loop 16 0 b d
            (m_a (coefficients rValue linearMax W b d) * exp (b * (W / M)))
            (- m_c (coefficients rValue linearMax W b d) / exp (d * (W / M))) ! k"
    unfolding coefficients_taylor by simp
  also have "\<dots> = m_a (coefficients rValue linearMax W b d) * exp (b * (W / M)) * b ^ (k + 1)
                     * (fact 0 / fact (0 + k + 1))
                   + (- m_c (coefficients rValue linearMax W b d) / exp (d * (W / M))) * (- d) ^ (k + 1)
                     * (fact 0 / fact (0 + k + 1))"
    by (rule taylor_loop_nth) fact
  finally have e: "m_taylor (coefficients rValue linearMax W b d) ! k
      = m_a (coefficients rValue linearMax W b d) * exp (b * (W / M)) * b ^ (k + 1)
          * (fact 0 / fact (0 + k + 1))
        + (- (m_a (coefficients rValue linearMax W b d) * exp (b * (W / M)) * exp (W / M * (b + d))))
          * (- d) ^ (k + 1) * (fact 0 / fact (0 + k + 1))"
    unfolding coefficients_negCoef .
  define A where "A = m_a (coefficients rValue linearMax W b d) * exp (b * (W / M))"
  define R where "R = exp (W / M * (b + d))"
  define F :: real where "F = fact (k + 1)"
  define p where "p = b ^ (k + 1)"
  define q where "q = (- d) ^ (k + 1)"
  have "A * p * (1 / F) + - (A * R) * q * (1 / F) = A * (p - R * q) / F"
    by (simp add: algebra_simps diff_divide_distrib)
  then show ?thesis using False unfolding e A_def R_def F_def p_def q_def by simp
qed

lemma root_bound:
  assumes "0 < d" "0 < b" "residual b w d \<le> 0"
  shows "d\<^sup>2 * exp (w * (b + d)) \<le> b\<^sup>2"
proof -
  have "2 * ln d + w * (b + d) \<le> 2 * ln b"
    using assms(3) by (simp add: residual_def algebra_simps)
  then have "exp (2 * ln d + w * (b + d)) \<le> exp (2 * ln b)" by simp
  moreover have "exp (2 * ln d + w * (b + d)) = d\<^sup>2 * exp (w * (b + d))"
    using assms(1) by (simp add: exp_add exp_of_nat_mult [of 2 "ln d", simplified])
  moreover have "exp (2 * ln b) = b\<^sup>2"
    using assms(2) by (simp add: exp_of_nat_mult [of 2 "ln b", simplified])
  ultimately show ?thesis by simp
qed

lemma power_bound:
  fixes b d R :: real
  assumes "0 < d" "d \<le> b" "0 \<le> R" "d\<^sup>2 * R \<le> b\<^sup>2"
  shows "0 \<le> b ^ (k + 1) - R * (- d) ^ (k + 1)"
proof (cases "even (k + 1)")
  case True
  then obtain j where j: "k + 1 = j + 2"
    by (metis One_nat_def add.commute add_2_eq_Suc' add_Suc_right even_Suc not0_implies_Suc odd_one plus_1_eq_Suc)
  have "d ^ j \<le> b ^ j" using assms by (intro power_mono) simp_all
  then have "d ^ j * (d\<^sup>2 * R) \<le> b ^ j * b\<^sup>2"
    using assms by (intro mult_mono) simp_all
  moreover have "d ^ j * (d\<^sup>2 * R) = R * d ^ (j + 2)" "b ^ j * b\<^sup>2 = b ^ (j + 2)"
    by (simp_all only: power_add mult_ac)
  ultimately have "R * d ^ (j + 2) \<le> b ^ (j + 2)" by simp
  then have r: "R * d ^ (k + 1) \<le> b ^ (k + 1)" unfolding j .
  have m: "(- d) ^ (k + 1) = d ^ (k + 1)" using True by (rule power_minus_even)
  show ?thesis unfolding m using r by linarith
next
  case False
  then have m: "(- d) ^ (k + 1) = - (d ^ (k + 1))" by (rule power_minus_odd)
  have "0 \<le> b ^ (k + 1)" "0 \<le> R * d ^ (k + 1)" using assms by simp_all
  then have "0 \<le> b ^ (k + 1) + R * d ^ (k + 1)" by linarith
  then show ?thesis unfolding m by (simp only: mult_minus_right diff_minus_eq_add)
qed

lemma coefficients_taylor_nonneg:
  assumes "0 \<le> m_a (coefficients rValue linearMax W b d)"
    and "0 < d" "d \<le> b" "residual b (W / M) d \<le> 0" "k < 16"
  shows "0 \<le> m_taylor (coefficients rValue linearMax W b d) ! k"
proof -
  have b: "0 < b" using assms by simp
  have "0 \<le> b ^ (k + 1) - exp (W / M * (b + d)) * (- d) ^ (k + 1)"
    by (rule power_bound [OF assms(2,3) _ root_bound [OF assms(2) b assms(4)]]) simp
  then show ?thesis
    unfolding coefficients_taylor_nth [OF assms(5)] using assms(1) by simp
qed

lemma series_mono:
  assumes l: "length (m_taylor t) = 16" and n: "\<And>k. k < 16 \<Longrightarrow> 0 \<le> m_taylor t ! k"
    and s: "m_x1 t \<le> s1" "s1 \<le> s2"
  shows "seriesBiexponential t s1 \<le> seriesBiexponential t s2"
proof -
  have x: "0 \<le> s1 - m_x1 t" "s1 - m_x1 t \<le> s2 - m_x1 t" using s by simp_all
  have "(\<Sum>k = 2..<16. m_taylor t ! k * (s1 - m_x1 t) ^ (k + 1))
        \<le> (\<Sum>k = 2..<16. m_taylor t ! k * (s2 - m_x1 t) ^ (k + 1))"
  proof (rule sum_mono)
    fix k :: nat assume "k \<in> {2..<16}"
    then have "k < 16" by simp
    from n [OF this] power_mono [OF x(2,1), of "k + 1"]
    show "m_taylor t ! k * (s1 - m_x1 t) ^ (k + 1) \<le> m_taylor t ! k * (s2 - m_x1 t) ^ (k + 1)"
      by (rule mult_left_mono [rotated])
  qed
  moreover have "m_taylor t ! 0 * (s1 - m_x1 t) \<le> m_taylor t ! 0 * (s2 - m_x1 t)"
    using n [of 0] x(2) by (intro mult_left_mono) simp_all
  ultimately show ?thesis unfolding series_poly [OF l] by linarith
qed

lemma series_at_x1:
  assumes "length (m_taylor t) = 16"
  shows "seriesBiexponential t (m_x1 t) = 0"
  unfolding series_poly [OF assms] by simp

lemma branch_shift:
  "branch b d w (w + x) = exp (b * w) * (exp (b * x) - exp (w * (b + d)) * exp (- (d * x)))"
proof -
  have "exp (2 * w * (b + d)) / exp (d * (w + x)) = exp (2 * w * (b + d) - d * (w + x))"
    by (simp only: exp_diff)
  also have "2 * w * (b + d) - d * (w + x) = b * w + (w * (b + d) + - (d * x))"
    by (simp add: algebra_simps)
  also have "exp (b * w + (w * (b + d) + - (d * x)))
             = exp (b * w) * (exp (w * (b + d)) * exp (- (d * x)))"
    by (simp only: exp_add)
  finally have e: "exp (2 * w * (b + d)) / exp (d * (w + x))
                   = exp (b * w) * (exp (w * (b + d)) * exp (- (d * x)))" .
  have "exp (b * (w + x)) = exp (b * w) * exp (b * x)"
    by (simp only: distrib_left exp_add)
  then show ?thesis unfolding branch_def e by (simp only: right_diff_distrib)
qed

lemma closed_form_shift:
  "closed_form (coefficients rValue linearMax W b d) (W / M + x)
   = m_a (coefficients rValue linearMax W b d) * exp (b * (W / M))
     * ((exp (b * x) - 1) - exp (W / M * (b + d)) * (exp (- (d * x)) - 1))"
proof -
  define a where "a = m_a (coefficients rValue linearMax W b d)"
  define E where "E = exp (b * (W / M))"
  define R where "R = exp (W / M * (b + d))"
  define p where "p = exp (b * x)"
  define q where "q = exp (- (d * x))"
  have "branch b d (W / M) (W / M) = branch b d (W / M) (W / M + 0)" by simp
  also have "\<dots> = E * (1 - R)"
    unfolding branch_shift E_def R_def by simp
  finally have bw: "branch b d (W / M) (W / M) = E * (1 - R)" .
  have "a * (E * (p - R * q) - E * (1 - R)) = a * E * ((p - 1) - R * (q - 1))"
    by (simp add: algebra_simps)
  then show ?thesis
    unfolding closed_form_coefficients bw unfolding branch_shift a_def E_def R_def p_def q_def .
qed

lemma series_shift:
  "seriesBiexponential (coefficients rValue linearMax W b d) (W / M + x)
   = m_a (coefficients rValue linearMax W b d) * exp (b * (W / M))
     * ((b * x + exp_tail (b * x)) - exp (W / M * (b + d)) * (- (d * x) + exp_tail (- (d * x))))"
proof -
  define t where "t = coefficients rValue linearMax W b d"
  define A where "A = m_a t * exp (b * (W / M))"
  define R where "R = exp (W / M * (b + d))"
  have x1: "W / M + x - m_x1 t = x" by (simp add: t_def coefficients_fields)
  have "(\<Sum>k = 2..<16. m_taylor t ! k * x ^ (k + 1))
        = (\<Sum>k = 2..<16. A * (b * x) ^ (k + 1) / fact (k + 1)
                          - A * R * (- (d * x)) ^ (k + 1) / fact (k + 1))"
  proof (rule sum.cong)
    fix k :: nat assume "k \<in> {2..<16}"
    then have k: "k < 16" "k \<noteq> 1" by simp_all
    have p: "(b * x) ^ (k + 1) = b ^ (k + 1) * x ^ (k + 1)"
      "(- (d * x)) ^ (k + 1) = (- d) ^ (k + 1) * x ^ (k + 1)"
      by (simp_all only: power_mult_distrib mult_minus_left [symmetric])
    define F :: real where "F = fact (k + 1)"
    define P where "P = b ^ (k + 1)"
    define Q where "Q = (- d) ^ (k + 1)"
    define X where "X = x ^ (k + 1)"
    have "m_taylor t ! k = A * (b ^ (k + 1) - R * (- d) ^ (k + 1)) / fact (k + 1)"
      unfolding t_def A_def R_def coefficients_taylor_nth [OF k(1)] using k(2) by simp
    then have e: "m_taylor t ! k = A * (P - R * Q) / F" unfolding F_def P_def Q_def .
    have "A * (P - R * Q) / F * X = A * (P * X) / F - A * R * (Q * X) / F"
      by (simp add: algebra_simps diff_divide_distrib)
    then show "m_taylor t ! k * x ^ (k + 1)
               = A * (b * x) ^ (k + 1) / fact (k + 1) - A * R * (- (d * x)) ^ (k + 1) / fact (k + 1)"
      unfolding p e unfolding F_def P_def Q_def X_def .
  qed simp
  also have "\<dots> = (\<Sum>k = 2..<16. A * (b * x) ^ (k + 1) / fact (k + 1))
                  - (\<Sum>k = 2..<16. A * R * (- (d * x)) ^ (k + 1) / fact (k + 1))"
    by (rule sum_subtractf)
  also have "\<dots> = A * exp_tail (b * x) - A * R * exp_tail (- (d * x))"
    by (simp only: exp_tail_scaled)
  finally have tail: "(\<Sum>k = 2..<16. m_taylor t ! k * x ^ (k + 1))
                      = A * exp_tail (b * x) - A * R * exp_tail (- (d * x))" .
  have "m_taylor t ! 0 = A * (b ^ (0 + 1) - R * (- d) ^ (0 + 1)) / fact (0 + 1)"
    unfolding t_def A_def R_def by (subst coefficients_taylor_nth) simp_all
  then have head: "m_taylor t ! 0 * x = A * (b * x) - A * R * (- (d * x))"
    by (simp add: algebra_simps)
  have l: "length (m_taylor t) = 16" unfolding t_def by (rule coefficients_taylor_length)
  have "seriesBiexponential t (W / M + x)
        = A * exp_tail (b * x) - A * R * exp_tail (- (d * x)) + (A * (b * x) - A * R * (- (d * x)))"
    unfolding series_poly [OF l] x1 tail head ..
  also have "\<dots> = A * ((b * x + exp_tail (b * x)) - R * (- (d * x) + exp_tail (- (d * x))))"
    by (simp only: algebra_simps)
  finally show ?thesis unfolding t_def A_def R_def .
qed

lemma series_below_closed:
  assumes a: "0 \<le> m_a (coefficients rValue linearMax W b d)"
    and d: "0 < d" "d \<le> b" and r: "residual b (W / M) d \<le> 0" and s: "W / M \<le> s"
  shows "seriesBiexponential (coefficients rValue linearMax W b d) s
         \<le> closed_form (coefficients rValue linearMax W b d) s"
proof -
  define x where "x = s - W / M"
  have x: "0 \<le> x" and s': "s = W / M + x" using s by (simp_all add: x_def)
  define A where "A = m_a (coefficients rValue linearMax W b d) * exp (b * (W / M))"
  define R where "R = exp (W / M * (b + d))"
  have A: "0 \<le> A" using a by (simp add: A_def)
  have R: "0 \<le> R" by (simp add: R_def)
  have b: "0 < b" using d by simp
  have rb: "d\<^sup>2 * R \<le> b\<^sup>2" unfolding R_def by (rule root_bound [OF d(1) b r])
  define u where "u = b * x"
  define v where "v = d * x"
  have u: "0 \<le> u" and v: "0 \<le> v" using x b d by (simp_all add: u_def v_def)
  define gu where "gu = exp_tail u"
  define gv where "gv = exp_tail (- v)"
  have lo: "1 + u + u\<^sup>2 / 2 + gu \<le> exp u" unfolding gu_def by (rule exp_tail_lower [OF u])
  have up: "exp (- v) \<le> 1 + (- v) + v\<^sup>2 / 2 + gv"
    using exp_tail_upper [OF v] by (simp add: gv_def)
  have "R * (exp (- v) - 1 - (- v + gv)) \<le> R * (v\<^sup>2 / 2)"
    using up R by (intro mult_left_mono) simp_all
  moreover have "R * (v\<^sup>2 / 2) \<le> u\<^sup>2 / 2"
  proof -
    have "x\<^sup>2 * (d\<^sup>2 * R) \<le> x\<^sup>2 * b\<^sup>2" using rb by (intro mult_left_mono) simp_all
    then show ?thesis unfolding u_def v_def by (simp add: power_mult_distrib mult_ac)
  qed
  ultimately have "R * (exp (- v) - 1 - (- v + gv)) \<le> exp u - 1 - (u + gu)"
    using lo by linarith
  then have "(u + gu) - R * (- v + gv) \<le> (exp u - 1) - R * (exp (- v) - 1)"
    by (simp add: algebra_simps)
  then have "A * ((u + gu) - R * (- v + gv)) \<le> A * ((exp u - 1) - R * (exp (- v) - 1))"
    using A by (rule mult_left_mono)
  then show ?thesis
    unfolding s' series_shift closed_form_shift A_def R_def u_def v_def gu_def gv_def .
qed

lemma closed_form_mono:
  assumes "0 \<le> m_a (coefficients rValue linearMax W b d)" "0 < b" "0 < d" "s1 \<le> s2"
  shows "closed_form (coefficients rValue linearMax W b d) s1
         \<le> closed_form (coefficients rValue linearMax W b d) s2"
proof (cases "s1 = s2")
  case True
  then show ?thesis by simp
next
  case False
  with assms(4) have "s1 < s2" by simp
  from branch_strict_mono [OF assms(2,3) this, of "W / M"]
  have "branch b d (W / M) s1 - branch b d (W / M) (W / M)
        \<le> branch b d (W / M) s2 - branch b d (W / M) (W / M)" by simp
  then show ?thesis
    unfolding closed_form_coefficients using assms(1) by (rule mult_left_mono)
qed

lemma inverse_fn_upper: "m_x1 t \<le> s \<Longrightarrow> inverse_fn t s = positive_side t s"
  by (simp add: inverse_fn_def positive_side_def closed_form_def)

lemma inverse_fn_lower: "s < m_x1 t \<Longrightarrow> inverse_fn t s = - positive_side t (2 * m_x1 t - s)"
  by (simp add: inverse_fn_def positive_side_def closed_form_def Let_def)

lemma positive_side_mono:
  assumes a: "0 \<le> m_a (coefficients rValue linearMax W b d)"
    and d: "0 < d" "d \<le> b" and r: "residual b (W / M) d \<le> 0"
    and s: "W / M \<le> s1" "s1 \<le> s2"
  shows "positive_side (coefficients rValue linearMax W b d) s1
         \<le> positive_side (coefficients rValue linearMax W b d) s2"
proof -
  define t where "t = coefficients rValue linearMax W b d"
  have b: "0 < b" using d by simp
  have x1: "m_x1 t = W / M" by (simp add: t_def coefficients_fields)
  have l: "length (m_taylor t) = 16" unfolding t_def by (rule coefficients_taylor_length)
  have n: "0 \<le> m_taylor t ! k" if "k < 16" for k
    unfolding t_def by (rule coefficients_taylor_nonneg [OF a d r that])
  consider "s2 < m_xTaylor t" | "m_xTaylor t \<le> s1" | "s1 < m_xTaylor t" "m_xTaylor t \<le> s2"
    by linarith
  then have "positive_side t s1 \<le> positive_side t s2"
  proof cases
    case 1
    with s have "s1 < m_xTaylor t" by simp
    with 1 show ?thesis
      unfolding positive_side_def using series_mono [OF l n _ s(2)] s(1) x1 by simp
  next
    case 2
    with s have "m_xTaylor t \<le> s2" by simp
    with 2 show ?thesis
      unfolding positive_side_def t_def using closed_form_mono [OF a b d(1) s(2)] by simp
  next
    case 3
    have "seriesBiexponential t s1 \<le> closed_form t s1"
      unfolding t_def by (rule series_below_closed [OF a d r s(1)])
    also have "\<dots> \<le> closed_form t s2"
      unfolding t_def by (rule closed_form_mono [OF a b d(1) s(2)])
    finally show ?thesis unfolding positive_side_def using 3 by simp
  qed
  then show ?thesis unfolding t_def .
qed

lemma positive_side_at_x1:
  "positive_side (coefficients rValue linearMax W b d) (W / M) = 0"
proof -
  have "seriesBiexponential (coefficients rValue linearMax W b d)
          (m_x1 (coefficients rValue linearMax W b d)) = 0"
    by (rule series_at_x1) (rule coefficients_taylor_length)
  then have "seriesBiexponential (coefficients rValue linearMax W b d) (W / M) = 0"
    by (simp only: coefficients_fields)
  moreover have "closed_form (coefficients rValue linearMax W b d) (W / M) = 0"
    unfolding closed_form_coefficients by simp
  ultimately show ?thesis unfolding positive_side_def by simp
qed

lemma inverse_mono_coefficients:
  assumes a: "0 \<le> m_a (coefficients rValue linearMax W b d)"
    and d: "0 < d" "d \<le> b" and r: "residual b (W / M) d \<le> 0"
    and s: "s1 \<le> s2"
  shows "inverse_fn (coefficients rValue linearMax W b d) s1
         \<le> inverse_fn (coefficients rValue linearMax W b d) s2"
proof -
  define t where "t = coefficients rValue linearMax W b d"
  have x1: "m_x1 t = W / M" by (simp add: t_def coefficients_fields)
  have mono: "positive_side t u \<le> positive_side t v" if "W / M \<le> u" "u \<le> v" for u v
    unfolding t_def by (rule positive_side_mono [OF a d r that])
  have nonneg: "0 \<le> positive_side t u" if "W / M \<le> u" for u
    using mono [OF order_refl that] unfolding t_def positive_side_at_x1 .
  consider "W / M \<le> s1" | "s2 < W / M" | "s1 < W / M" "W / M \<le> s2" by linarith
  then have "inverse_fn t s1 \<le> inverse_fn t s2"
  proof cases
    case 1
    with s have "W / M \<le> s2" by simp
    with 1 show ?thesis using mono [OF 1 s] by (simp add: inverse_fn_upper x1)
  next
    case 2
    with s have 1: "s1 < W / M" by simp
    have "positive_side t (2 * (W / M) - s2) \<le> positive_side t (2 * (W / M) - s1)"
      using 2 s by (intro mono) simp_all
    then show ?thesis using 1 2 by (simp add: inverse_fn_lower x1)
  next
    case 3
    have "0 \<le> positive_side t (2 * (W / M) - s1)" using 3 by (intro nonneg) simp
    moreover have "0 \<le> positive_side t s2" using 3 by (intro nonneg)
    ultimately show ?thesis using 3 by (simp add: inverse_fn_lower inverse_fn_upper x1)
  qed
  then show ?thesis unfolding t_def .
qed

lemma inverse_mono_constructed:
  assumes n: "new_BiexponentialTranslator rValue linearMax = Inr t" and T: "0 < linearMax"
    and x1: "m_x1 t < 1" and s: "s1 \<le> s2"
  shows "inverse_fn t s1 \<le> inverse_fn t s2"
proof -
  from new_BiexponentialTranslator_Inr [OF n] obtain d
    where sv: "solve (M * LN_10) (decade_width rValue linearMax / M) = Inr d"
      and t: "t = assemble rValue linearMax (decade_width rValue linearMax) (M * LN_10) d"
      and d: "0 < d" "d \<le> M * LN_10" by blast
  have w0: "0 \<le> decade_width rValue linearMax / M"
    using decade_width_nonneg [of rValue linearMax] by (simp add: M_def)
  have w1: "decade_width rValue linearMax / M < 1" using x1 by (simp add: t assemble_x1)
  have r: "residual (M * LN_10) (decade_width rValue linearMax / M) d \<le> 0"
    by (rule constructor_residual [OF w0 w1 sv])
  have "0 < m_a (coefficients rValue linearMax (decade_width rValue linearMax) (M * LN_10) d)"
    by (rule coefficient_a_pos [OF T M_LN_10_pos d(1) w1])
  then have a: "0 \<le> m_a (coefficients rValue linearMax (decade_width rValue linearMax) (M * LN_10) d)"
    by simp
  show ?thesis unfolding t assemble_inverse by (rule inverse_mono_coefficients [OF a d r s])
qed









subsection \<open>The Transform constructed with (1, 1000)\<close>

lemma exp_minus_upper:
  assumes "0 \<le> (v::real)"
  shows "exp (- v) \<le> 1 - v + v\<^sup>2 / 2"
proof -
  from Maclaurin_exp_le [of "- v" 3] obtain t
    where e: "exp (- v) = (\<Sum>m<3. (- v) ^ m / fact m) + exp t / fact 3 * (- v) ^ 3" by blast
  have "(- v) ^ 3 = - (v ^ 3)" by (rule power_minus_odd) simp
  then have "exp t / fact 3 * (- v) ^ 3 \<le> 0"
    using assms by (simp add: mult_nonneg_nonpos divide_nonneg_pos)
  moreover have "(\<Sum>m<3. (- v) ^ m / fact m) = 1 - v + v\<^sup>2 / 2"
    by (simp add: eval_nat_numeral)
  ultimately show ?thesis using e by linarith
qed

lemma exp_gap_bounds:
  assumes "0 \<le> (v::real)" "v \<le> 1"
  shows "2 * v \<le> exp v - exp (- v)" and "exp v - exp (- v) \<le> 2 * v + v\<^sup>2"
proof -
  have 1: "1 + v + v\<^sup>2 / 2 \<le> exp v" by (rule exp_lower_Taylor_quadratic [OF assms(1)])
  have 2: "exp (- v) \<le> 1 - v + v\<^sup>2 / 2" by (rule exp_minus_upper [OF assms(1)])
  have 3: "exp v \<le> 1 + v + v\<^sup>2" by (rule exp_bound [OF assms])
  have 4: "1 + (- v) \<le> exp (- v)" by (rule exp_ge_add_one_self)
  from 1 2 show "2 * v \<le> exp v - exp (- v)" by linarith
  from 3 4 show "exp v - exp (- v) \<le> 2 * v + v\<^sup>2" by linarith
qed

lemma default_inverse:
  assumes "0 \<le> s"
  shows "inverse_fn (assemble 1 1000 0 (M * LN_10) (M * LN_10)) s
         = m_a (coefficients 1 1000 0 (M * LN_10) (M * LN_10))
           * (exp (M * LN_10 * s) - exp (- (M * LN_10 * s)))"
proof -
  define t where "t = assemble 1 1000 0 (M * LN_10) (M * LN_10)"
  have "inverse_fn t s = closed_form t s"
    by (rule inverse_fn_closed) (use assms in \<open>simp_all add: t_def default_transform\<close>)
  also have "\<dots> = m_a (coefficients 1 1000 0 (M * LN_10) (M * LN_10))
       * (branch (M * LN_10) (M * LN_10) (0 / M) s - branch (M * LN_10) (M * LN_10) (0 / M) (0 / M))"
    unfolding t_def by (rule closed_form_assemble)
  also have "branch (M * LN_10) (M * LN_10) (0 / M) s - branch (M * LN_10) (M * LN_10) (0 / M) (0 / M)
             = exp (M * LN_10 * s) - exp (- (M * LN_10 * s))"
    by (simp add: branch_def exp_minus inverse_eq_divide)
  finally show ?thesis unfolding t_def .
qed

lemma default_a_pos: "0 < m_a (coefficients 1 1000 0 (M * LN_10) (M * LN_10))"
  by (rule coefficient_a_pos) (simp_all add: M_LN_10_pos)

lemma default_lookup:
  assumes "i \<le> bins"
  shows "m_lookup (assemble 1 1000 0 (M * LN_10) (M * LN_10)) ! i
         = inverse_fn (assemble 1 1000 0 (M * LN_10) (M * LN_10)) (real i / real bins)"
proof -
  have n: "new_BiexponentialTranslator 1 1000 = Inr (assemble 1 1000 0 (M * LN_10) (M * LN_10))"
    by (rule new_default) simp
  show ?thesis by (rule lookup_entries(3) [OF n assms])
qed

lemma default_lookup_0: "m_lookup (assemble 1 1000 0 (M * LN_10) (M * LN_10)) ! 0 = 0"
  using default_lookup [of 0] default_inverse [of 0] by simp

lemma scan_index_first:
  assumes "2 \<le> length lookup" "lookup ! 0 \<le> x" "x < lookup ! 1"
  shows "scan_index lookup x = 0"
proof -
  from assms(1) have "0 < length lookup - 1" by simp
  then have "[0..<length lookup - 1] = 0 # [Suc 0..<length lookup - 1]"
    by (rule upt_conv_Cons)
  then show ?thesis using assms(2,3) by (simp add: scan_index_def)
qed

lemma default_lookup_1:
  "m_lookup (assemble 1 1000 0 (M * LN_10) (M * LN_10)) ! 1
   = m_a (coefficients 1 1000 0 (M * LN_10) (M * LN_10))
     * (exp (M * LN_10 / real bins) - exp (- (M * LN_10 / real bins)))"
proof -
  have "(1::nat) \<le> bins" by (simp add: bins_def)
  from default_lookup [OF this] default_inverse [of "real 1 / real bins"]
  show ?thesis by simp
qed

lemma default_cell_width:
  "0 \<le> M * LN_10 / real bins" "50 * (M * LN_10 / real bins) \<le> 1"
proof -
  define b where "b = M * LN_10"
  have b: "0 < b" "b \<le> 12" using wide_b by (simp_all add: b_def)
  have "b / 1024 * 50 \<le> 1" using b by linarith
  then show "50 * (M * LN_10 / real bins) \<le> 1" by (simp add: b_def bins_def)
  show "0 \<le> M * LN_10 / real bins" using b by (simp add: b_def bins_def)
qed

lemma default_lookup_1_lower:
  "m_a (coefficients 1 1000 0 (M * LN_10) (M * LN_10)) * (M * LN_10 / real bins)
   \<le> m_lookup (assemble 1 1000 0 (M * LN_10) (M * LN_10)) ! 1 / 2"
proof -
  define u where "u = M * LN_10 / real bins"
  define a where "a = m_a (coefficients 1 1000 0 (M * LN_10) (M * LN_10))"
  define g where "g = exp u - exp (- u)"
  have u: "0 \<le> u" "u \<le> 1" using default_cell_width by (simp_all add: u_def)
  have "2 * u \<le> g" unfolding g_def by (rule exp_gap_bounds(1) [OF u])
  then have "a * (2 * u) \<le> a * g"
    using default_a_pos by (intro mult_left_mono) (simp_all add: a_def)
  then have "a * u \<le> a * g / 2" by simp
  then show ?thesis unfolding default_lookup_1 u_def a_def g_def .
qed

lemma default_lookup_1_pos: "0 < m_lookup (assemble 1 1000 0 (M * LN_10) (M * LN_10)) ! 1"
proof -
  have "0 < m_a (coefficients 1 1000 0 (M * LN_10) (M * LN_10)) * (M * LN_10 / real bins)"
    using default_a_pos M_LN_10_pos by (simp add: bins_def)
  with default_lookup_1_lower show ?thesis by linarith
qed

lemma default_in_domain:
  assumes "0 \<le> x" "x \<le> m_lookup (assemble 1 1000 0 (M * LN_10) (M * LN_10)) ! 1"
  shows "m_lookup (assemble 1 1000 0 (M * LN_10) (M * LN_10)) ! 0 \<le> x"
    and "x \<le> m_lookup (assemble 1 1000 0 (M * LN_10) (M * LN_10)) ! (bins - 1)"
proof -
  define t where "t = assemble 1 1000 0 (M * LN_10) (M * LN_10)"
  have n: "new_BiexponentialTranslator 1 1000 = Inr t"
    unfolding t_def by (rule new_default) simp
  have x1: "m_x1 t < 1" by (simp add: t_def default_transform)
  have "inverse_fn t (real 1 / real bins) \<le> inverse_fn t (real (bins - 1) / real bins)"
    by (rule inverse_mono_constructed [OF n _ x1]) (simp_all add: bins_def)
  moreover have "m_lookup t ! 1 = inverse_fn t (real 1 / real bins)"
    by (rule lookup_entries(3) [OF n]) (simp add: bins_def)
  moreover have "m_lookup t ! (bins - 1) = inverse_fn t (real (bins - 1) / real bins)"
    by (rule lookup_entries(3) [OF n]) simp
  ultimately have "m_lookup t ! 1 \<le> m_lookup t ! (bins - 1)" by (simp only:)
  with assms(2) show "x \<le> m_lookup (assemble 1 1000 0 (M * LN_10) (M * LN_10)) ! (bins - 1)"
    unfolding t_def by simp
  show "m_lookup (assemble 1 1000 0 (M * LN_10) (M * LN_10)) ! 0 \<le> x"
    using assms(1) by (simp add: default_lookup_0)
qed

lemma default_from_linear:
  assumes "0 < x" "x < m_lookup (assemble 1 1000 0 (M * LN_10) (M * LN_10)) ! 1"
  shows "translateFromLinear (assemble 1 1000 0 (M * LN_10) (M * LN_10)) x = 0"
proof -
  define t where "t = assemble 1 1000 0 (M * LN_10) (M * LN_10)"
  have n: "new_BiexponentialTranslator 1 1000 = Inr t"
    unfolding t_def by (rule new_default) simp
  have l: "2 \<le> length (m_lookup t)" using lookup_entries(1,2) [OF n] by simp
  have 0: "m_lookup t ! 0 \<le> x" using assms(1) by (simp add: t_def default_lookup_0)
  have hi: "\<not> x > m_lookup t ! (bins - 1)"
    using default_in_domain(2) [of x] assms by (simp add: t_def)
  have "scan_index (m_lookup t) x = 0"
    by (rule scan_index_first [OF l 0]) (use assms(2) in \<open>simp add: t_def\<close>)
  then show ?thesis unfolding t_def [symmetric] using hi by (simp add: translateFromLinear_def)
qed

lemma default_to_linear_0:
  "translateToLinear (assemble 1 1000 0 (M * LN_10) (M * LN_10)) 0 = Inr 0"
  by (simp add: translateToLinear_def Let_def assemble_rest default_lookup_0 bins_def)

lemma default_round_trip:
  assumes "0 < x" "x < m_lookup (assemble 1 1000 0 (M * LN_10) (M * LN_10)) ! 1"
  shows "round_trip (assemble 1 1000 0 (M * LN_10) (M * LN_10)) x = Inr 0"
  unfolding round_trip_def default_from_linear [OF assms] by (rule default_to_linear_0)

lemma default_to_linear_first:
  assumes "0 \<le> s" "s \<le> 1 / real bins"
  shows "translateToLinear (assemble 1 1000 0 (M * LN_10) (M * LN_10)) (M * s)
         = Inr (real bins * s * m_lookup (assemble 1 1000 0 (M * LN_10) (M * LN_10)) ! 1)"
proof -
  define t where "t = assemble 1 1000 0 (M * LN_10) (M * LN_10)"
  define r where "r = real bins * s"
  have r: "0 \<le> r" "r \<le> 1" using assms by (simp_all add: r_def bins_def)
  have sv: "\<not> M * s < 0" "\<not> M * s > 4.5" using assms by (simp_all add: M_def bins_def)
  have x: "M * s / m_resolution t = r" by (simp add: t_def assemble_rest r_def M_def)
  have l0: "m_lookup t ! 0 = 0" unfolding t_def by (rule default_lookup_0)
  show ?thesis
  proof (cases "r = 1")
    case True
    then have f: "\<lfloor>r\<rfloor> = 1" by simp
    show ?thesis
      unfolding translateToLinear_def Let_def t_def [symmetric] r_def [symmetric] using sv
      by (simp add: x f True bins_def)
  next
    case False
    with r have "r < 1" by simp
    with r have f: "\<lfloor>r\<rfloor> = 0" by (simp add: floor_eq_iff)
    show ?thesis
      unfolding translateToLinear_def Let_def t_def [symmetric] r_def [symmetric] using sv
      by (simp add: x f l0 bins_def)
  qed
qed

lemma default_interpolation_error:
  assumes "0 \<le> s" "s \<le> 1 / real bins"
  shows "50 * \<bar>real bins * s * m_lookup (assemble 1 1000 0 (M * LN_10) (M * LN_10)) ! 1
               - inverse_fn (assemble 1 1000 0 (M * LN_10) (M * LN_10)) s\<bar>
         \<le> m_lookup (assemble 1 1000 0 (M * LN_10) (M * LN_10)) ! 1 / 2"
proof -
  define a where "a = m_a (coefficients 1 1000 0 (M * LN_10) (M * LN_10))"
  define u where "u = M * LN_10 / real bins"
  define r where "r = real bins * s"
  have a: "0 < a" unfolding a_def by (rule default_a_pos)
  have u: "0 \<le> u" "50 * u \<le> 1" using default_cell_width by (simp_all add: u_def)
  then have u1: "u \<le> 1" by linarith
  have r: "0 \<le> r" "r \<le> 1" using assms by (simp_all add: r_def bins_def)
  have ru: "0 \<le> r * u" "r * u \<le> 1"
    using r u u1 by (simp_all add: mult_le_one)
  have bs: "M * LN_10 * s = r * u" by (simp add: r_def u_def bins_def)
  define gu where "gu = exp u - exp (- u)"
  define gr where "gr = exp (r * u) - exp (- (r * u))"
  have gu: "2 * u \<le> gu" "gu \<le> 2 * u + u\<^sup>2"
    unfolding gu_def by (rule exp_gap_bounds [OF u(1) u1])+
  have gr: "2 * (r * u) \<le> gr" "gr \<le> 2 * (r * u) + (r * u)\<^sup>2"
    unfolding gr_def by (rule exp_gap_bounds [OF ru])+
  have l1: "m_lookup (assemble 1 1000 0 (M * LN_10) (M * LN_10)) ! 1 = a * gu"
    unfolding default_lookup_1 a_def gu_def u_def ..
  have iv: "inverse_fn (assemble 1 1000 0 (M * LN_10) (M * LN_10)) s = a * gr"
    unfolding default_inverse [OF assms(1)] bs a_def gr_def ..
  have c1: "r * (2 * u) \<le> r * gu" "r * gu \<le> r * (2 * u + u\<^sup>2)"
    using gu r(1) by (simp_all add: mult_left_mono)
  have "(r * u)\<^sup>2 \<le> r * u\<^sup>2"
  proof -
    have "r * r \<le> r * 1" using r by (intro mult_left_mono) simp_all
    then have "r * r * u\<^sup>2 \<le> r * u\<^sup>2" by (intro mult_right_mono) simp_all
    then show ?thesis by (simp add: power2_eq_square mult_ac)
  qed
  moreover have "r * u\<^sup>2 \<le> u\<^sup>2" using r by (simp add: mult_left_le_one_le)
  moreover have "r * (2 * u + u\<^sup>2) = 2 * (r * u) + r * u\<^sup>2" by (simp add: algebra_simps)
  ultimately have d: "\<bar>r * gu - gr\<bar> \<le> u\<^sup>2" using c1 gr by linarith
  have "50 * u\<^sup>2 \<le> u"
  proof -
    have "50 * u * u \<le> 1 * u" using u by (intro mult_right_mono) simp_all
    then show ?thesis by (simp add: power2_eq_square)
  qed
  moreover from d have "50 * \<bar>r * gu - gr\<bar> \<le> 50 * u\<^sup>2" by simp
  moreover have "u \<le> gu / 2" using gu(1) by simp
  ultimately have "50 * \<bar>r * gu - gr\<bar> \<le> gu / 2" by (meson order_trans)
  then have "a * (50 * \<bar>r * gu - gr\<bar>) \<le> a * (gu / 2)"
    using a by (intro mult_left_mono) simp_all
  moreover have "a * (50 * \<bar>r * gu - gr\<bar>) = 50 * \<bar>r * (a * gu) - a * gr\<bar>"
  proof -
    have "r * (a * gu) - a * gr = a * (r * gu - gr)" by (simp add: algebra_simps)
    then show ?thesis using a by (simp add: abs_mult)
  qed
  ultimately show ?thesis unfolding l1 iv r_def [symmetric] by simp
qed

section \<open>Termination of solve\<close>

text \<open>
  C4, as the code has it. For every \<open>b > 0\<close> and \<open>w > 0\<close>, \<open>solve(b, w)\<close> either returns or
  raises the error of the iteration cap, and it does one of the two for every input: the
  loop is a total function whose counter \<open>i\<close> runs from 1 to 19. The error is raised
  exactly when none of these 19 passes returns (not 20: the head of the loop is
  \<^verbatim>\<open>for (let i = 1; i < 20; ++i)\<close>); otherwise the result is the estimate of the first pass
  that returns, it lies strictly between \<open>0\<close> and \<open>b\<close>, and a pass returns exactly under the
  early-exit conditions \<open>early_exit\<close>.
\<close>

theorem solve_returns_or_raises:
  assumes "0 < b" and "0 < w"
  shows "(solve b w = Inl ExceededMaximumIterations
            \<longleftrightarrow> (\<exists>vars. passes 19 w (- 2 * ln b + w * b) (start_vars b w) = Continue vars))
       \<and> (\<forall>r. solve b w = Inr r
            \<longleftrightarrow> passes 19 w (- 2 * ln b + w * b) (start_vars b w) = Return r)
       \<and> (\<forall>r. solve b w = Inr r \<longrightarrow> 0 < r \<and> r < b)
       \<and> ((\<exists>r. solve b w = Inr r) \<or> solve b w = Inl ExceededMaximumIterations)
       \<and> (\<forall>vars r. solve_pass w (- 2 * ln b + w * b) vars = Return r
            \<longleftrightarrow> early_exit w (- 2 * ln b + w * b) vars r)"
proof -
  from assms have w: "w \<noteq> 0" by simp
  have 1: "solve b w = Inl ExceededMaximumIterations
            \<longleftrightarrow> (\<exists>vars. passes 19 w (- 2 * ln b + w * b) (start_vars b w) = Continue vars)"
    unfolding solve_passes [OF w] by (simp split: pass.splits)
  have 2: "\<forall>r. solve b w = Inr r
            \<longleftrightarrow> passes 19 w (- 2 * ln b + w * b) (start_vars b w) = Return r"
    unfolding solve_passes [OF w] by (simp split: pass.splits)
  have 3: "\<forall>r. solve b w = Inr r \<longrightarrow> 0 < r \<and> r < b"
    using solve_result_range [OF assms] by blast
  have 4: "(\<exists>r. solve b w = Inr r) \<or> solve b w = Inl ExceededMaximumIterations"
    unfolding solve_passes [OF w] by (simp split: pass.splits)
  from 1 2 3 4 solve_pass_Return show ?thesis by blast
qed

text \<open>
  An instance: \<open>b = 4.5 ln 10\<close> and \<open>w = 25/18\<close>, the call that the constructor makes for
  \<open>linearMax / resolutionParam = 10^-8\<close>. Ten bisection passes are followed by Newton
  passes, and the solver returns.
\<close>

theorem solve_returns_or_raises_witness:
  "0 < M * LN_10 \<and> (0::real) < 25 / 18
   \<and> (\<exists>r. solve (M * LN_10) (25 / 18) = Inr r
          \<and> passes 19 (25 / 18) (- 2 * ln (M * LN_10) + 25 / 18 * (M * LN_10))
                (start_vars (M * LN_10) (25 / 18)) = Return r
          \<and> 0 < r \<and> r < M * LN_10)"
proof -
  have p: "(0::real) < 25 / 18" by simp
  from wide_solve obtain r where r: "solve (M * LN_10) (25 / 18) = Inr r" by blast
  from solve_returns_or_raises [OF wide_b(3) p] r wide_b(3) p show ?thesis by blast
qed

text \<open>
  C4 as stated fails at \<open>b = 10^-6\<close>, \<open>w = 10^8\<close>: all 19 passes of the loop are bisections
  that do not return, so \<open>solve\<close> raises; a 20th pass would have returned, because its
  step \<open>b / 2^20\<close> is below \<open>EPSILON\<close>. The error is therefore raised although an early exit
  occurs within 20 passes.
\<close>

theorem solve_cap_counterexample:
  "solve (1 / 10 ^ 6) (10 ^ 8) = Inl ExceededMaximumIterations
   \<and> passes 20 (10 ^ 8) (- 2 * ln (1 / 10 ^ 6) + 10 ^ 8 * (1 / 10 ^ 6))
        (start_vars (1 / 10 ^ 6) (10 ^ 8)) = Return ((1 / 10 ^ 6) / 2 ^ 20)"
proof -
  have "passes (19 + 1) (10 ^ 8) (- 2 * ln (1 / 10 ^ 6) + 10 ^ 8 * (1 / 10 ^ 6))
          (start_vars (1 / 10 ^ 6) (10 ^ 8)) = Return ((1 / 10 ^ 6) / 2 ^ 20)"
    unfolding passes_add stiff_19 using stiff_20 by simp
  then show ?thesis
    using stiff_19 by (simp add: solve_passes)
qed

section \<open>The closed-form coefficients\<close>




section \<open>Monotonicity of inverse\<close>




section \<open>The lookup table\<close>

text \<open>
  C5, as the code has it. For every Transform constructed with \<open>linearMax > 0\<close>, the
  lookup table has exactly \<open>bins + 1 = 1025\<close> entries and entry \<open>i\<close> equals
  \<open>inverse(i / bins)\<close> for every \<open>i\<close> from \<open>0\<close> to \<open>bins\<close>. When the transition point \<open>x1\<close> is
  below \<open>1\<close>, the sequence of entries is non-decreasing.
\<close>

theorem lookup_table:
  assumes "new_BiexponentialTranslator rValue linearMax = Inr t" and "0 < linearMax"
  shows "length (m_lookup t) = bins + 1 \<and> bins + 1 = 1025
       \<and> (\<forall>i \<le> bins. m_lookup t ! i = inverse_fn t (real i / real bins))
       \<and> (m_x1 t < 1 \<longrightarrow> (\<forall>i j. i \<le> j \<and> j \<le> bins \<longrightarrow> m_lookup t ! i \<le> m_lookup t ! j))"
proof -
  note le = lookup_entries [OF assms(1)]
  have 3: "\<forall>i \<le> bins. m_lookup t ! i = inverse_fn t (real i / real bins)"
    using le(3) by blast
  have mono: "m_lookup t ! i \<le> m_lookup t ! j" if "m_x1 t < 1" "i \<le> j" "j \<le> bins" for i j
  proof -
    have "real i / real bins \<le> real j / real bins"
      using that(2) by (simp add: bins_def divide_right_mono)
    from inverse_mono_constructed [OF assms that(1) this]
    show ?thesis using le(3) [of i] le(3) [of j] that(2,3) by simp
  qed
  show ?thesis using le(1,2) 3 mono by blast
qed

text \<open>
  Two instances: the Transform constructed with \<open>(1, 1000)\<close> and the entries \<open>3\<close> and
  \<open>1024\<close>; and the Transform constructed with \<open>(-1000, 1)\<close>, whose transition point is
  \<open>5/6\<close>, and the entries \<open>0\<close> and \<open>1024\<close>.
\<close>

theorem lookup_table_witness:
  "(new_BiexponentialTranslator 1 1000 = Inr (assemble 1 1000 0 (M * LN_10) (M * LN_10))
    \<and> (0::real) < 1000
    \<and> m_x1 (assemble 1 1000 0 (M * LN_10) (M * LN_10)) < 1
    \<and> length (m_lookup (assemble 1 1000 0 (M * LN_10) (M * LN_10))) = 1025
    \<and> m_lookup (assemble 1 1000 0 (M * LN_10) (M * LN_10)) ! 3
       = inverse_fn (assemble 1 1000 0 (M * LN_10) (M * LN_10)) (real 3 / real bins)
    \<and> m_lookup (assemble 1 1000 0 (M * LN_10) (M * LN_10)) ! 3
       \<le> m_lookup (assemble 1 1000 0 (M * LN_10) (M * LN_10)) ! 1024)
   \<and> (\<exists>t. new_BiexponentialTranslator (- 1000) 1 = Inr t \<and> (0::real) < 1 \<and> m_x1 t < 1
          \<and> length (m_lookup t) = 1025 \<and> m_lookup t ! 0 \<le> m_lookup t ! 1024)"
proof -
  have n: "new_BiexponentialTranslator 1 1000 = Inr (assemble 1 1000 0 (M * LN_10) (M * LN_10))"
    by (rule new_default) simp
  have p: "(0::real) < 1000" by simp
  have x: "m_x1 (assemble 1 1000 0 (M * LN_10) (M * LN_10)) < 1"
    by (simp add: default_transform)
  have i: "(3::nat) \<le> bins" "(3::nat) \<le> 1024" "(1024::nat) \<le> bins" "(0::nat) \<le> 1024"
    by (simp_all add: bins_def)
  note lt = lookup_table [OF n p]
  from lt have 1: "length (m_lookup (assemble 1 1000 0 (M * LN_10) (M * LN_10))) = 1025"
    by simp
  from lt i have 2: "m_lookup (assemble 1 1000 0 (M * LN_10) (M * LN_10)) ! 3
      = inverse_fn (assemble 1 1000 0 (M * LN_10) (M * LN_10)) (real 3 / real bins)"
    by blast
  from lt x i have 3: "m_lookup (assemble 1 1000 0 (M * LN_10) (M * LN_10)) ! 3
      \<le> m_lookup (assemble 1 1000 0 (M * LN_10) (M * LN_10)) ! 1024"
    by blast
  from mid_transform obtain t
    where n': "new_BiexponentialTranslator (- 1000) 1 = Inr t" and x': "m_x1 t < 1" by auto
  have p': "(0::real) < 1" by simp
  note lt' = lookup_table [OF n' p']
  from lt' have 4: "length (m_lookup t) = 1025" by simp
  from lt' x' i have 5: "m_lookup t ! 0 \<le> m_lookup t ! 1024" by blast
  from n' p' x' 4 5 have 6: "\<exists>t. new_BiexponentialTranslator (- 1000) 1 = Inr t \<and> (0::real) < 1
          \<and> m_x1 t < 1 \<and> length (m_lookup t) = 1025 \<and> m_lookup t ! 0 \<le> m_lookup t ! 1024"
    by blast
  from n p x 1 2 3 6 show ?thesis by blast
qed

text \<open>
  C5 as stated fails for the Transform constructed with \<open>(-10^8, 1)\<close>: its table
  falls from entry \<open>0\<close> to entry \<open>1\<close>.
\<close>

theorem lookup_table_counterexample:
  "\<exists>t. new_BiexponentialTranslator (- 100000000) 1 = Inr t
       \<and> m_lookup t ! 1 < m_lookup t ! 0"
proof -
  from narrow_transform obtain t
    where n: "new_BiexponentialTranslator (- 100000000) 1 = Inr t"
      and f: "\<forall>s1 s2. s1 < s2 \<and> s2 \<le> 1023 / 1024 \<longrightarrow> inverse_fn t s2 < inverse_fn t s1"
    by blast
  have "inverse_fn t (real 1 / real bins) < inverse_fn t (real 0 / real bins)"
    using f [rule_format, of "real 0 / real bins" "real 1 / real bins"] by (simp add: bins_def)
  then have "m_lookup t ! 1 < m_lookup t ! 0"
    using lookup_entries(3) [OF n, of 0] lookup_entries(3) [OF n, of 1] by (simp add: bins_def)
  with n show ?thesis by blast
qed

section \<open>The clamp of translateFromLinear\<close>

text \<open>
  C6, as the code has it. \<open>translateFromLinear(v)\<close> returns \<open>0\<close> for every
  \<open>v \<le> lookup[0]\<close>, and returns \<open>M = 4.5\<close> for every \<open>v > lookup[bins - 1]\<close> that is also above
  \<open>lookup[0]\<close>: the test against \<open>lookup[0]\<close> comes first. For a Transform constructed with
  \<open>linearMax > 0\<close> whose transition point \<open>x1\<close> is below \<open>1\<close> the table does not fall, and
  \<open>translateFromLinear(v)\<close> returns \<open>M\<close> for every \<open>v > lookup[bins - 1]\<close>.
\<close>

theorem translateFromLinear_clamps:
  "(linearValue \<le> m_lookup t ! 0 \<longrightarrow> translateFromLinear t linearValue = 0)
   \<and> (m_lookup t ! 0 < linearValue \<and> m_lookup t ! (bins - 1) < linearValue
        \<longrightarrow> translateFromLinear t linearValue = M)
   \<and> (new_BiexponentialTranslator rValue linearMax = Inr t \<and> 0 < linearMax \<and> m_x1 t < 1
        \<and> m_lookup t ! (bins - 1) < linearValue
        \<longrightarrow> translateFromLinear t linearValue = M)
   \<and> M = 4.5"
proof -
  have "translateFromLinear t linearValue = M"
    if n: "new_BiexponentialTranslator rValue linearMax = Inr t" and T: "0 < linearMax"
      and x: "m_x1 t < 1" and v: "m_lookup t ! (bins - 1) < linearValue"
  proof -
    have "inverse_fn t (real 0 / real bins) \<le> inverse_fn t (real (bins - 1) / real bins)"
      by (rule inverse_mono_constructed [OF n T x]) (simp add: bins_def)
    moreover have "m_lookup t ! 0 = inverse_fn t (real 0 / real bins)"
      by (rule lookup_entries(3) [OF n]) simp
    moreover have "m_lookup t ! (bins - 1) = inverse_fn t (real (bins - 1) / real bins)"
      by (rule lookup_entries(3) [OF n]) simp
    ultimately have "m_lookup t ! 0 \<le> m_lookup t ! (bins - 1)" by (simp only:)
    with v have "m_lookup t ! 0 < linearValue" by simp
    then show ?thesis using v by (rule translateFromLinear_high)
  qed
  then show ?thesis
    by (simp add: translateFromLinear_low translateFromLinear_high M_def)
qed

text \<open>
  An instance: the Transform constructed with \<open>(1, 1000)\<close>, at \<open>v = lookup[0]\<close> and at
  \<open>v = lookup[bins - 1] + 1\<close>.
\<close>

theorem translateFromLinear_clamps_witness:
  "new_BiexponentialTranslator 1 1000 = Inr (assemble 1 1000 0 (M * LN_10) (M * LN_10))
   \<and> (0::real) < 1000
   \<and> m_x1 (assemble 1 1000 0 (M * LN_10) (M * LN_10)) < 1
   \<and> translateFromLinear (assemble 1 1000 0 (M * LN_10) (M * LN_10))
        (m_lookup (assemble 1 1000 0 (M * LN_10) (M * LN_10)) ! 0) = 0
   \<and> translateFromLinear (assemble 1 1000 0 (M * LN_10) (M * LN_10))
        (m_lookup (assemble 1 1000 0 (M * LN_10) (M * LN_10)) ! (bins - 1) + 1) = M"
proof -
  define t where "t = assemble 1 1000 0 (M * LN_10) (M * LN_10)"
  have n: "new_BiexponentialTranslator 1 1000 = Inr t"
    unfolding t_def by (rule new_default) simp
  have p: "(0::real) < 1000" by simp
  have x1: "m_x1 t < 1" by (simp add: t_def default_transform)
  have lt: "m_lookup t ! (bins - 1) < m_lookup t ! (bins - 1) + 1" by simp
  have 1: "translateFromLinear t (m_lookup t ! 0) = 0"
    using translateFromLinear_clamps [of "m_lookup t ! 0" t] by simp
  have 2: "translateFromLinear t (m_lookup t ! (bins - 1) + 1) = M"
    using translateFromLinear_clamps [of "m_lookup t ! (bins - 1) + 1" t 1 1000] n p x1 lt by blast
  from n p x1 1 2 show ?thesis unfolding t_def by blast
qed

text \<open>
  C6 as stated fails for the Transform constructed with \<open>(-10^8, 1)\<close>: its table
  falls, \<open>v = lookup[0]\<close> is above \<open>lookup[bins - 1]\<close>, and \<open>translateFromLinear(v)\<close> is \<open>0\<close>,
  not \<open>4.5\<close>.
\<close>

theorem translateFromLinear_clamps_counterexample:
  "\<exists>t. new_BiexponentialTranslator (- 100000000) 1 = Inr t
       \<and> m_lookup t ! (bins - 1) < m_lookup t ! 0
       \<and> translateFromLinear t (m_lookup t ! 0) = 0 \<and> M = 4.5"
proof -
  from narrow_transform obtain t
    where n: "new_BiexponentialTranslator (- 100000000) 1 = Inr t"
      and f: "\<forall>s1 s2. s1 < s2 \<and> s2 \<le> 1023 / 1024 \<longrightarrow> inverse_fn t s2 < inverse_fn t s1"
    by blast
  have "inverse_fn t (real (bins - 1) / real bins) < inverse_fn t (real 0 / real bins)"
    using f [rule_format, of "real 0 / real bins" "real (bins - 1) / real bins"]
    by (simp add: bins_def)
  moreover have "m_lookup t ! 0 = inverse_fn t (real 0 / real bins)"
    by (rule lookup_entries(3) [OF n]) simp
  moreover have "m_lookup t ! (bins - 1) = inverse_fn t (real (bins - 1) / real bins)"
    by (rule lookup_entries(3) [OF n]) simp
  ultimately have "m_lookup t ! (bins - 1) < m_lookup t ! 0" by (simp only:)
  moreover have "translateFromLinear t (m_lookup t ! 0) = 0"
    by (rule translateFromLinear_low) simp
  ultimately show ?thesis using n by (auto simp: M_def)
qed

section \<open>The round trip\<close>

text \<open>
  C3, evaluated where the code departs from it. Take the Transform constructed with
  \<open>(1, 1000)\<close> and the linear value \<open>x = lookup[1] / 2\<close>, which lies in
  \<open>[lookup[0], lookup[bins - 1]]\<close>. The scan of \<^verbatim>\<open>translateFromLinear\<close> finds \<open>x\<close> in the first
  cell, \<open>index\<close> is \<open>0\<close> and the scale value returned is \<open>0\<close>; \<^verbatim>\<open>translateToLinear(0)\<close> is
  \<open>lookup[0] = 0\<close>. So the round trip returns \<open>0\<close> and its error is \<open>x\<close> itself, which is
  positive. Linear interpolation over that cell errs by far less: at every scale value
  \<open>s\<close> of the cell, the interpolated table value \<^verbatim>\<open>translateToLinear(M s)\<close> differs from
  \<open>inverse(s)\<close> by at most \<open>x / 50\<close>.
\<close>

theorem round_trip_first_cell:
  "\<exists>t x. new_BiexponentialTranslator 1 1000 = Inr t \<and> x = m_lookup t ! 1 / 2
     \<and> m_lookup t ! 0 \<le> x \<and> x \<le> m_lookup t ! (bins - 1)
     \<and> translateFromLinear t x = 0 \<and> round_trip t x = Inr 0 \<and> 0 < x
     \<and> (\<forall>s. 0 \<le> s \<and> s \<le> 1 / real bins \<longrightarrow>
            (\<exists>y. translateToLinear t (M * s) = Inr y \<and> 50 * \<bar>y - inverse_fn t s\<bar> \<le> x))"
proof -
  define t where "t = assemble 1 1000 0 (M * LN_10) (M * LN_10)"
  define x where "x = m_lookup t ! 1 / 2"
  have n: "new_BiexponentialTranslator 1 1000 = Inr t"
    unfolding t_def by (rule new_default) simp
  have p: "0 < x" "x < m_lookup t ! 1"
    using default_lookup_1_pos by (simp_all add: x_def t_def)
  have d: "m_lookup t ! 0 \<le> x" "x \<le> m_lookup t ! (bins - 1)"
    using default_in_domain [of x] p by (simp_all add: t_def)
  have f: "translateFromLinear t x = 0"
    unfolding t_def by (rule default_from_linear) (use p in \<open>simp_all add: t_def\<close>)
  have r: "round_trip t x = Inr 0"
    unfolding t_def by (rule default_round_trip) (use p in \<open>simp_all add: t_def\<close>)
  have i: "\<exists>y. translateToLinear t (M * s) = Inr y \<and> 50 * \<bar>y - inverse_fn t s\<bar> \<le> x"
    if "0 \<le> s \<and> s \<le> 1 / real bins" for s
    using default_to_linear_first [of s] default_interpolation_error [of s] that
    by (simp add: t_def x_def)
  from n d f r p(1) i show ?thesis unfolding x_def by blast
qed

text \<open>
  An instance: the scale value \<open>1 / 2048\<close>, the middle of the first cell.
\<close>

theorem round_trip_first_cell_witness:
  "\<exists>t x y. new_BiexponentialTranslator 1 1000 = Inr t \<and> x = m_lookup t ! 1 / 2
     \<and> round_trip t x = Inr 0 \<and> 0 < x
     \<and> translateToLinear t (M * (1 / 2048)) = Inr y
     \<and> 50 * \<bar>y - inverse_fn t (1 / 2048)\<bar> \<le> x"
proof -
  from round_trip_first_cell obtain t x
    where n: "new_BiexponentialTranslator 1 1000 = Inr t" "x = m_lookup t ! 1 / 2"
      "round_trip t x = Inr 0" "0 < x"
      and i: "\<forall>s. 0 \<le> s \<and> s \<le> 1 / real bins \<longrightarrow>
            (\<exists>y. translateToLinear t (M * s) = Inr y \<and> 50 * \<bar>y - inverse_fn t s\<bar> \<le> x)"
    by blast
  have "(0::real) \<le> 1 / 2048 \<and> (1::real) / 2048 \<le> 1 / real bins" by (simp add: bins_def)
  with i obtain y where "translateToLinear t (M * (1 / 2048)) = Inr y"
    "50 * \<bar>y - inverse_fn t (1 / 2048)\<bar> \<le> x" by blast
  with n show ?thesis by blast
qed

section \<open>The cache\<close>

text \<open>
  C7. In a cache that calls of \<^verbatim>\<open>constructBiExponentialTranslator\<close> have built (every
  stored reference points to an allocated object, and no two keys share a reference), a
  call that returns the instance \<open>r1\<close> is followed by the same answer for the same two
  numbers: the same reference, and no change of the cache, so the object is constructed
  once, on the first request, by the constructor. A call with a different pair of numbers
  returns a different reference, leaves the object of \<open>r1\<close> as it is, and the first pair
  still gets \<open>r1\<close> afterwards.
\<close>

theorem cache_identity_stable:
  assumes "cache_ok st"
    and "constructBiExponentialTranslator rValue linearMax st = Inr (r1, st1)"
  shows "constructBiExponentialTranslator rValue linearMax st1 = Inr (r1, st1)
       \<and> (translators st (rValue, linearMax) = None \<longrightarrow>
            new_BiexponentialTranslator rValue linearMax = Inr (objects st1 ! r1)
            \<and> length (objects st1) = Suc (length (objects st)))
       \<and> (\<forall>rValue' linearMax' r2 st2.
            (rValue', linearMax') \<noteq> (rValue, linearMax)
            \<and> constructBiExponentialTranslator rValue' linearMax' st1 = Inr (r2, st2)
            \<longrightarrow> r2 \<noteq> r1 \<and> objects st2 ! r1 = objects st1 ! r1
                \<and> constructBiExponentialTranslator rValue linearMax st2 = Inr (r1, st2))"
proof -
  note r = construct_result [OF assms(2)]
  have ok1: "cache_ok st1" by (rule r(3) [OF assms(1)])
  have lt: "r1 < length (objects st1)"
    using ok1 r(1) unfolding cache_ok_def by blast
  have 3: "r2 \<noteq> r1 \<and> objects st2 ! r1 = objects st1 ! r1
           \<and> constructBiExponentialTranslator rValue linearMax st2 = Inr (r1, st2)"
    if "(rValue', linearMax') \<noteq> (rValue, linearMax)"
      "constructBiExponentialTranslator rValue' linearMax' st1 = Inr (r2, st2)"
    for rValue' linearMax' r2 st2
    using cache_identity(2) [OF assms that] construct_result(4) [OF that(2) lt] by simp
  from cache_identity(1) [OF assms] r(5) 3 show ?thesis by blast
qed

text \<open>
  An instance: from the empty cache, \<open>(1, 1000)\<close> twice gives the reference \<open>0\<close> both
  times and one object, \<open>(2, 1000)\<close> gives the reference \<open>1\<close>.
\<close>

theorem cache_identity_stable_witness:
  "cache_ok empty_cache
   \<and> (\<exists>st1 st2. constructBiExponentialTranslator 1 1000 empty_cache = Inr (0, st1)
         \<and> constructBiExponentialTranslator 1 1000 st1 = Inr (0, st1)
         \<and> length (objects st1) = 1
         \<and> constructBiExponentialTranslator 2 1000 st1 = Inr (1, st2)
         \<and> (1::nat) \<noteq> 0
         \<and> constructBiExponentialTranslator 1 1000 st2 = Inr (0, st2))"
proof -
  define t1 where "t1 = assemble 1 1000 0 (M * LN_10) (M * LN_10)"
  define t2 where "t2 = assemble 2 1000 0 (M * LN_10) (M * LN_10)"
  define st1 where "st1 = empty_cache \<lparr> objects := objects empty_cache @ [t1],
     translators := (translators empty_cache)((1, 1000) \<mapsto> length (objects empty_cache)) \<rparr>"
  define st2 where "st2 = st1 \<lparr> objects := objects st1 @ [t2],
     translators := (translators st1)((2, 1000) \<mapsto> length (objects st1)) \<rparr>"
  have n1: "new_BiexponentialTranslator 1 1000 = Inr t1"
    unfolding t1_def by (rule new_default) simp
  have n2: "new_BiexponentialTranslator 2 1000 = Inr t2"
    unfolding t2_def by (rule new_default) simp
  have c1: "constructBiExponentialTranslator 1 1000 empty_cache = Inr (0, st1)"
    by (simp add: construct_miss empty_cache_def n1 st1_def)
  have c2: "constructBiExponentialTranslator 2 1000 st1 = Inr (1, st2)"
    by (simp add: construct_miss empty_cache_def n2 st1_def st2_def)
  have l: "length (objects st1) = 1" by (simp add: st1_def empty_cache_def)
  have ne: "((2::real), (1000::real)) \<noteq> (1, 1000)" by simp
  note th = cache_identity_stable [OF cache_ok_empty c1]
  from th have a: "constructBiExponentialTranslator 1 1000 st1 = Inr (0, st1)" by blast
  from th ne c2 have b: "constructBiExponentialTranslator 1 1000 st2 = Inr (0, st2)" by blast
  from cache_ok_empty c1 a l c2 b show ?thesis by blast
qed

section \<open>The sign of the raw input\<close>

text \<open>
  C8. For every Transform that the constructor returns: if the raw input is negative,
  the effective resolution parameter is its absolute value, \<open>max = linearMax\<close> and
  \<open>min = lookup[0]\<close>; if it is not negative, the effective resolution parameter is
  \<open>0.001\<close> and \<open>min\<close> and \<open>max\<close> keep the value \<open>0\<close> of their declaration, so no range is
  recorded. The decade width is computed from the effective parameter.
\<close>

theorem constructor_normalizes_sign:
  assumes "new_BiexponentialTranslator rValue linearMax = Inr t"
  shows "(rValue < 0 \<longrightarrow> m_rValue t = \<bar>rValue\<bar> \<and> max_lin t = linearMax
                        \<and> min_lin t = m_lookup t ! 0)
       \<and> (0 \<le> rValue \<longrightarrow> m_rValue t = 0.001 \<and> max_lin t = 0 \<and> min_lin t = 0)
       \<and> m_W t = decade_width rValue linearMax"
proof -
  from new_BiexponentialTranslator_Inr [OF assms] obtain d
    where t: "t = assemble rValue linearMax (decade_width rValue linearMax) (M * LN_10) d"
    by blast
  have "m_W t = decade_width rValue linearMax" by (simp add: t assemble_x1)
  with constructor_sign [OF assms] show ?thesis by (simp add: not_less)
qed

text \<open>
  Instances: the constructor called with \<open>(-10^8, 1)\<close> and with \<open>(1, 1000)\<close>.
\<close>

theorem constructor_normalizes_sign_witness:
  "(\<exists>t. new_BiexponentialTranslator (- 100000000) 1 = Inr t \<and> (- 100000000 :: real) < 0
        \<and> m_rValue t = 100000000 \<and> max_lin t = 1 \<and> min_lin t = m_lookup t ! 0)
   \<and> new_BiexponentialTranslator 1 1000 = Inr (assemble 1 1000 0 (M * LN_10) (M * LN_10))
   \<and> (0::real) \<le> 1
   \<and> m_rValue (assemble 1 1000 0 (M * LN_10) (M * LN_10)) = 0.001
   \<and> max_lin (assemble 1 1000 0 (M * LN_10) (M * LN_10)) = 0
   \<and> min_lin (assemble 1 1000 0 (M * LN_10) (M * LN_10)) = 0"
proof -
  from new_narrow obtain d
    where n: "new_BiexponentialTranslator (- 100000000) 1
              = Inr (assemble (- 100000000) 1 (25 / 4) (M * LN_10) d)" by blast
  have neg: "(- 100000000 :: real) < 0" by simp
  from constructor_normalizes_sign [OF n] neg
  have 1: "\<exists>t. new_BiexponentialTranslator (- 100000000) 1 = Inr t \<and> (- 100000000 :: real) < 0
        \<and> m_rValue t = 100000000 \<and> max_lin t = 1 \<and> min_lin t = m_lookup t ! 0"
    using n by auto
  have m: "new_BiexponentialTranslator 1 1000 = Inr (assemble 1 1000 0 (M * LN_10) (M * LN_10))"
    by (rule new_default) simp
  have p: "(0::real) \<le> 1" by simp
  from constructor_normalizes_sign [OF m] p 1 m show ?thesis by blast
qed

section \<open>translateToLinear is total\<close>

text \<open>
  C10. For every constructed Transform and every argument, \<^verbatim>\<open>translateToLinear\<close>
  returns a value: the resolution is \<open>M / bins\<close>, the argument is clamped into \<open>[0, 4.5]\<close>,
  so the index \<open>floor(scaledValue / resolution)\<close> lies in \<open>[0, bins]\<close> and the \<^verbatim>\<open>throw\<close> is
  never reached.
\<close>

theorem translateToLinear_never_throws:
  assumes "new_BiexponentialTranslator rValue linearMax = Inr t"
  shows "(\<exists>y. translateToLinear t scaledValue = Inr y)
       \<and> m_resolution t = M / real bins
       \<and> 0 \<le> \<lfloor>(if scaledValue < 0 then 0 else if scaledValue > 4.5 then 4.5 else scaledValue)
               / m_resolution t\<rfloor>
       \<and> \<lfloor>(if scaledValue < 0 then 0 else if scaledValue > 4.5 then 4.5 else scaledValue)
               / m_resolution t\<rfloor> \<le> int bins"
proof -
  from new_BiexponentialTranslator_Inr [OF assms] obtain d
    where t: "t = assemble rValue linearMax (decade_width rValue linearMax) (M * LN_10) d"
    by blast
  have r: "m_resolution t = M / real bins" by (simp add: t assemble_rest)
  define sv where "sv = (if scaledValue < 0 then 0 else if scaledValue > 4.5 then 4.5 else scaledValue)"
  have sv: "0 \<le> sv" "sv \<le> 4.5" by (simp_all add: sv_def)
  have x: "sv / m_resolution t = sv * 2048 / 9" by (simp add: r M_def bins_def)
  have "0 \<le> sv * 2048 / 9" "sv * 2048 / 9 \<le> 1024" using sv by simp_all
  then have "0 \<le> \<lfloor>sv / m_resolution t\<rfloor>" "\<lfloor>sv / m_resolution t\<rfloor> \<le> int bins"
    unfolding x by (simp_all add: floor_le_iff le_floor_iff bins_def)
  with translateToLinear_total [OF r, of scaledValue] r show ?thesis
    unfolding sv_def by blast
qed

text \<open>
  Instances: the Transform constructed with \<open>(1, 1000)\<close>, at \<open>7\<close> and at \<open>-3\<close>.
\<close>

theorem translateToLinear_never_throws_witness:
  "new_BiexponentialTranslator 1 1000 = Inr (assemble 1 1000 0 (M * LN_10) (M * LN_10))
   \<and> (\<exists>y. translateToLinear (assemble 1 1000 0 (M * LN_10) (M * LN_10)) 7 = Inr y)
   \<and> (\<exists>y. translateToLinear (assemble 1 1000 0 (M * LN_10) (M * LN_10)) (- 3) = Inr y)"
proof -
  have m: "new_BiexponentialTranslator 1 1000 = Inr (assemble 1 1000 0 (M * LN_10) (M * LN_10))"
    by (rule new_default) simp
  from translateToLinear_never_throws [OF m, of 7] translateToLinear_never_throws [OF m, of "- 3"] m
  show ?thesis by blast
qed

section \<open>The degenerate case of solve\<close>

text \<open>
  C9. For every \<open>b\<close>, in particular for every \<open>b > 0\<close>, \<open>solve(b, 0)\<close> returns exactly
  \<open>b\<close>: the test \<open>w == 0\<close> is the first statement of \<^verbatim>\<open>solve\<close> and returns before the
  bracket is set up and before the loop is entered. An instance is \<open>solve(10, 0) = 10\<close>.
\<close>

theorem solve_w_zero: "solve b 0 = Inr b \<and> solve 10 0 = Inr 10"
  by (simp add: solve_def)

end
